theory Spec2Isabelle
  imports Complex_Main "HOL-Library.Sublist" "HOL-Library.Multiset"
begin

section \<open>Python primitives used by the engine\<close>

text \<open>
  Documents, literals and placeholder ids are Python \<open>str\<close> values, modelled as
  \<^typ>\<open>string\<close>: one \<^typ>\<open>char\<close> per code point, for code points below 256.
  A key that the source reads with \<open>d.get(k, default)\<close> is a record field that
  holds the default when the key is missing.
\<close>

definition is_space :: "char \<Rightarrow> bool" where
  \<comment> \<open>the code points below 256 that \<open>str.strip()\<close> removes\<close>
  "is_space c =
     (let n = (of_char c :: nat)
      in (9 \<le> n \<and> n \<le> 13) \<or> (28 \<le> n \<and> n \<le> 32) \<or> n = 133 \<or> n = 160)"

definition strip :: "string \<Rightarrow> string" where
  "strip s = rev (dropWhile is_space (rev (dropWhile is_space s)))"

definition digit_char :: "nat \<Rightarrow> char" where
  "digit_char d = char_of (48 + d)"

fun str_nat :: "nat \<Rightarrow> string" where
  \<comment> \<open>\<open>str(n)\<close> of a counter\<close>
  "str_nat n = (if n < 10 then [digit_char n] else str_nat (n div 10) @ [digit_char (n mod 10)])"

declare str_nat.simps [simp del]

fun find_at :: "string \<Rightarrow> string \<Rightarrow> nat \<Rightarrow> nat option" where
  "find_at [] sub i = (if sub = [] then Some i else None)"
| "find_at (c # cs) sub i = (if prefix sub (c # cs) then Some i else find_at cs sub (Suc i))"

definition str_find :: "string \<Rightarrow> string \<Rightarrow> nat \<Rightarrow> nat option" where
  \<comment> \<open>\<open>s.find(sub, start)\<close> for \<open>start \<ge> 0\<close>; \<open>None\<close> is Python's \<open>-1\<close>\<close>
  "str_find s sub start = (if length s < start then None else find_at (drop start s) sub start)"

definition py_index :: "nat \<Rightarrow> int \<Rightarrow> nat" where
  \<comment> \<open>a slice bound clamped to \<open>0 .. n\<close>, a negative bound counting from the end\<close>
  "py_index n i = (if i < 0 then nat (max 0 (int n + i)) else min n (nat i))"

definition py_slice :: "string \<Rightarrow> int \<Rightarrow> int \<Rightarrow> string" where
  \<comment> \<open>\<open>s[a:b]\<close>\<close>
  "py_slice s a b = drop (py_index (length s) a) (take (py_index (length s) b) s)"

text \<open>
  A \<open>dict\<close> keeps its keys in insertion order, and assigning to a key that is
  present keeps the key's place: an association list with distinct keys.
\<close>

type_synonym ('k, 'v) dict = "('k \<times> 'v) list"

fun dict_set :: "'k \<Rightarrow> 'v \<Rightarrow> ('k, 'v) dict \<Rightarrow> ('k, 'v) dict" where
  "dict_set k v [] = [(k, v)]"
| "dict_set k v ((k', v') # d) = (if k' = k then (k, v) # d else (k', v') # dict_set k v d)"

definition dict_get :: "('k, 'v) dict \<Rightarrow> 'k \<Rightarrow> 'v option" where
  "dict_get d k = map_of d k"

definition dict_keys :: "('k, 'v) dict \<Rightarrow> 'k list" where
  "dict_keys d = map fst d"

definition dict_modify :: "'k \<Rightarrow> ('v \<Rightarrow> 'v) \<Rightarrow> ('k, 'v) dict \<Rightarrow> ('k, 'v) dict" where
  \<comment> \<open>in-place mutation of the value stored under \<open>k\<close>\<close>
  "dict_modify k f d = map (\<lambda>(k', v). if k' = k then (k', f v) else (k', v)) d"

text \<open>
  A \<open>set\<close> of strings is kept as the list of its elements without repetition.
  The order in which Python iterates over a set is not fixed by the program (for
  strings it changes with the interpreter's hash seed), so every iteration over
  a set goes through a parameter \<open>iter\<close>, which returns the elements in some order.
\<close>

definition set_add :: "'a \<Rightarrow> 'a list \<Rightarrow> 'a list" where
  "set_add x xs = (if x \<in> set xs then xs else xs @ [x])"

definition set_order :: "(string list \<Rightarrow> string list) \<Rightarrow> bool" where
  \<comment> \<open>\<open>iter\<close> enumerates each set: every element once\<close>
  "set_order iter = (\<forall>xs. distinct xs \<longrightarrow> distinct (iter xs) \<and> set (iter xs) = set xs)"

section \<open>The anonymizer: \<open>core/anonymizer.py\<close>\<close>

record entity =
  e_text :: string
  e_type :: string
  e_canonical :: string

record alias_group =
  ag_canonical :: string
  ag_aliases :: "string list"

record group_info =
  g_type :: string
  g_texts :: "string list"
  g_aliases :: "string list"

record placeholder_info =
  p_value :: "string option"
  p_type :: string
  p_aliases :: "string list"

record replacement_record =
  placeholder :: string
  original_text :: string
  position :: int
  context_before :: string
  context_after :: string

record metadata =
  source_file :: string
  entity_count :: nat

record mapping =
  m_metadata :: metadata
  m_mappings :: "(string, placeholder_info) dict"
  m_replacement_log :: "replacement_record list"

subsection \<open>Step 1: canonical groups and placeholders\<close>

definition add_entity :: "(string, group_info) dict \<Rightarrow> entity \<Rightarrow> (string, group_info) dict" where
  \<comment> \<open>one iteration of the loop of lines 219-238\<close>
  "add_entity canonical_groups e =
     (let entity_text = strip (e_text e);
          entity_type = e_type e;
          canonical = strip (e_canonical e)
      in if entity_text = [] then canonical_groups
         else
           let group_key = (if canonical \<noteq> [] then canonical else entity_text);
               groups1 = (if group_key \<in> set (dict_keys canonical_groups) then canonical_groups
                          else dict_set group_key
                                 \<lparr>g_type = entity_type, g_texts = [], g_aliases = []\<rparr>
                                 canonical_groups);
               groups2 = dict_modify group_key
                           (\<lambda>g. g\<lparr>g_texts := set_add entity_text (g_texts g)\<rparr>) groups1
           in if canonical \<noteq> []
              then dict_modify group_key (\<lambda>g. g\<lparr>g_texts := set_add canonical (g_texts g)\<rparr>) groups2
              else groups2)"

definition add_alias :: "string \<Rightarrow> (string, group_info) dict \<Rightarrow> string \<Rightarrow> (string, group_info) dict" where
  "add_alias canonical canonical_groups alias =
     dict_modify canonical
       (\<lambda>g. g\<lparr>g_texts := set_add alias (g_texts g), g_aliases := g_aliases g @ [alias]\<rparr>)
       canonical_groups"

definition add_alias_group ::
  "(string, group_info) dict \<Rightarrow> alias_group \<Rightarrow> (string, group_info) dict" where
  \<comment> \<open>one iteration of the loop of lines 241-246\<close>
  "add_alias_group canonical_groups ag =
     (let canonical = ag_canonical ag
      in if canonical \<in> set (dict_keys canonical_groups)
         then foldl (add_alias canonical) canonical_groups (ag_aliases ag)
         else canonical_groups)"

definition build_groups :: "entity list \<Rightarrow> alias_group list \<Rightarrow> (string, group_info) dict" where
  "build_groups entities aliases = foldl add_alias_group (foldl add_entity [] entities) aliases"

definition make_placeholder :: "string \<Rightarrow> nat \<Rightarrow> string" where
  "make_placeholder entity_type n = ''{'' @ entity_type @ ''_'' @ str_nat n @ ''}''"

type_synonym assign_state =
  "(string, nat) dict \<times> (string, placeholder_info) dict \<times> (string, string) dict"

definition assign_step ::
  "(string \<Rightarrow> string) \<Rightarrow> (string list \<Rightarrow> string list) \<Rightarrow> assign_state \<Rightarrow>
   string \<times> group_info \<Rightarrow> assign_state" where
  \<comment> \<open>one iteration of the loop of lines 253-270; \<open>upper\<close> is \<open>str.upper\<close>\<close>
  "assign_step upper iter st cg =
     (case st of (type_counters, placeholder_map, text_to_placeholder) \<Rightarrow>
      case cg of (canonical, group_info) \<Rightarrow>
        let entity_type = upper (g_type group_info);
            n = (case dict_get type_counters entity_type of None \<Rightarrow> 1 | Some c \<Rightarrow> c + 1);
            type_counters' = dict_set entity_type n type_counters;
            placeholder = make_placeholder entity_type n;
            placeholder_map' =
              dict_set placeholder
                \<lparr>p_value = Some canonical, p_type = g_type group_info,
                 p_aliases = iter (removeAll canonical (g_texts group_info))\<rparr>
                placeholder_map;
            text_to_placeholder' =
              foldl (\<lambda>d t. dict_set t placeholder d) text_to_placeholder
                (iter (g_texts group_info))
        in (type_counters', placeholder_map', text_to_placeholder'))"

definition assign_placeholders ::
  "(string \<Rightarrow> string) \<Rightarrow> (string list \<Rightarrow> string list) \<Rightarrow> (string, group_info) dict \<Rightarrow>
   assign_state" where
  "assign_placeholders upper iter canonical_groups =
     foldl (assign_step upper iter) ([], [], []) canonical_groups"

definition placeholder_table ::
  "(string \<Rightarrow> string) \<Rightarrow> (string list \<Rightarrow> string list) \<Rightarrow> (string, group_info) dict \<Rightarrow>
   (string, placeholder_info) dict" where
  \<comment> \<open>\<open>placeholder_map\<close> when the loop has run over the groups\<close>
  "placeholder_table upper iter canonical_groups =
     fst (snd (assign_placeholders upper iter canonical_groups))"

definition literal_map ::
  "(string \<Rightarrow> string) \<Rightarrow> (string list \<Rightarrow> string list) \<Rightarrow> (string, group_info) dict \<Rightarrow>
   (string, string) dict" where
  \<comment> \<open>\<open>text_to_placeholder\<close> when the loop has run over the groups\<close>
  "literal_map upper iter canonical_groups =
     snd (snd (assign_placeholders upper iter canonical_groups))"

subsection \<open>Step 2: longest-first substitution\<close>

definition sorted_texts :: "(string, string) dict \<Rightarrow> string list" where
  \<comment> \<open>\<open>sorted(keys, key=len, reverse=True)\<close>: a stable sort, longest first\<close>
  "sorted_texts text_to_placeholder =
     sort_key (\<lambda>t. - int (length t)) (dict_keys text_to_placeholder)"

definition window_before :: "string \<Rightarrow> nat \<Rightarrow> string" where
  \<comment> \<open>\<open>s[max(0, pos - 40) : pos]\<close>\<close>
  "window_before s pos = py_slice s (max 0 (int pos - 40)) (int pos)"

definition window_after :: "string \<Rightarrow> nat \<Rightarrow> nat \<Rightarrow> string" where
  \<comment> \<open>\<open>s[pos + n : pos + n + 40]\<close>\<close>
  "window_after s pos n = py_slice s (int (pos + n)) (int (pos + n + 40))"

definition make_record :: "string \<Rightarrow> string \<Rightarrow> string \<Rightarrow> nat \<Rightarrow> replacement_record" where
  "make_record ph entity_text anonymized_text pos =
     \<lparr>placeholder = ph, original_text = entity_text, position = int pos,
      context_before = window_before anonymized_text pos,
      context_after = window_after anonymized_text pos (length entity_text)\<rparr>"

definition splice :: "string \<Rightarrow> nat \<Rightarrow> nat \<Rightarrow> string \<Rightarrow> string" where
  \<comment> \<open>\<open>s[:pos] + new + s[pos + n:]\<close>\<close>
  "splice s pos n new = take pos s @ new @ drop (pos + n) s"

text \<open>
  The \<open>while True\<close> loop of lines 282-306 for one literal. It need not end (an
  empty literal is found at every cursor position), so it is a partial function:
  \<open>None\<close> is a run that never returns.
\<close>

partial_function (option) replace_loop ::
  "string \<Rightarrow> string \<Rightarrow> string \<Rightarrow> nat \<Rightarrow> replacement_record list \<Rightarrow>
   (string \<times> replacement_record list) option" where
  "replace_loop entity_text ph anonymized_text search_start replacement_log =
     (case str_find anonymized_text entity_text search_start of
        None \<Rightarrow> Some (anonymized_text, replacement_log)
      | Some pos \<Rightarrow>
          replace_loop entity_text ph
            (splice anonymized_text pos (length entity_text) ph)
            (pos + length ph)
            (replacement_log @ [make_record ph entity_text anonymized_text pos]))"

declare replace_loop.simps [code]

fun replace_all ::
  "(string, string) dict \<Rightarrow> string list \<Rightarrow> string \<times> replacement_record list \<Rightarrow>
   (string \<times> replacement_record list) option" where
  \<comment> \<open>the \<open>for\<close> loop of lines 278-306; a key that is missing would raise \<open>KeyError\<close>\<close>
  "replace_all text_to_placeholder [] st = Some st"
| "replace_all text_to_placeholder (entity_text # rest) st =
     (case dict_get text_to_placeholder entity_text of
        None \<Rightarrow> None
      | Some ph \<Rightarrow>
          (case replace_loop entity_text ph (fst st) 0 (snd st) of
             None \<Rightarrow> None
           | Some st' \<Rightarrow> replace_all text_to_placeholder rest st'))"

definition execute_replacement ::
  "(string \<Rightarrow> string) \<Rightarrow> (string list \<Rightarrow> string list) \<Rightarrow> string \<Rightarrow> entity list \<Rightarrow>
   alias_group list \<Rightarrow> string \<Rightarrow> (string \<times> mapping) option" where
  \<comment> \<open>\<open>created_at\<close>, the wall-clock time of the run, is left out of the metadata\<close>
  "execute_replacement upper iter text entities aliases source_filename =
     (let canonical_groups = build_groups entities aliases;
          placeholder_map = placeholder_table upper iter canonical_groups;
          text_to_placeholder = literal_map upper iter canonical_groups
      in case replace_all text_to_placeholder (sorted_texts text_to_placeholder) (text, []) of
           None \<Rightarrow> None
         | Some (anonymized_text, replacement_log) \<Rightarrow>
             Some (anonymized_text,
                   \<lparr>m_metadata = \<lparr>source_file = source_filename,
                                  entity_count = length canonical_groups\<rparr>,
                    m_mappings = placeholder_map,
                    m_replacement_log = replacement_log\<rparr>))"

section \<open>The de-anonymizer: \<open>core/deanonymizer.py\<close>\<close>

subsection \<open>Placeholder tokens: the pattern \<open>\{[A-Z]+_\d+\}\<close>\<close>

definition is_AZ :: "char \<Rightarrow> bool" where
  "is_AZ c = (let n = (of_char c :: nat) in 65 \<le> n \<and> n \<le> 90)"

definition is_digit :: "char \<Rightarrow> bool" where
  \<comment> \<open>\<open>\d\<close>: below 256 the decimal digits are \<open>0\<close> to \<open>9\<close>\<close>
  "is_digit c = (let n = (of_char c :: nat) in 48 \<le> n \<and> n \<le> 57)"

definition match_token :: "string \<Rightarrow> string option" where
  \<comment> \<open>the match of the pattern at the head of the string; the greedy runs never
      give a character back, since neither \<open>_\<close> nor \<open>}\<close> belongs to the run before it\<close>
  "match_token s =
     (case s of
        [] \<Rightarrow> None
      | c # r \<Rightarrow>
          if c \<noteq> CHR ''{'' then None
          else
            let up = takeWhile is_AZ r; r1 = dropWhile is_AZ r
            in if up = [] then None
               else (case r1 of
                       [] \<Rightarrow> None
                     | u # r2 \<Rightarrow>
                         if u \<noteq> CHR ''_'' then None
                         else
                           let ds = takeWhile is_digit r2; r3 = dropWhile is_digit r2
                           in if ds = [] then None
                              else (case r3 of
                                      [] \<Rightarrow> None
                                    | b # r4 \<Rightarrow>
                                        if b \<noteq> CHR ''}'' then None
                                        else Some (c # up @ u # ds @ [b]))))"

fun finditer :: "nat \<Rightarrow> string \<Rightarrow> (nat \<times> string) list" where
  \<comment> \<open>\<open>re.finditer\<close>: the matches from left to right as (start, token); the scan
      resumes after a match (a match has at least one character)\<close>
  "finditer i [] = []"
| "finditer i (c # cs) =
     (case match_token (c # cs) of
        Some tok \<Rightarrow> (i, tok) # finditer (i + length tok) (drop (length tok - 1) cs)
      | None \<Rightarrow> finditer (Suc i) cs)"

subsection \<open>Step A: position-based restoration\<close>

definition position_order :: "replacement_record list \<Rightarrow> replacement_record list" where
  \<comment> \<open>\<open>sorted(replacement_log, key=position, reverse=True)\<close>, a stable sort\<close>
  "position_order replacement_log = sort_key (\<lambda>e. - position e) replacement_log"

definition position_find :: "string \<Rightarrow> replacement_record \<Rightarrow> nat option" where
  \<comment> \<open>lines 40-47: \<open>actual_pos\<close> when the placeholder is found in the window\<close>
  "position_find text entry =
     (let search_start = max 0 (position entry - 50);
          search_end = min (int (length text))
                         (position entry + int (length (placeholder entry)) + 50);
          search_region = py_slice text search_start search_end
      in case str_find search_region (placeholder entry) 0 of
           None \<Rightarrow> None
         | Some local_pos \<Rightarrow> Some (nat search_start + local_pos))"

definition position_step ::
  "string \<times> nat \<times> nat \<Rightarrow> replacement_record \<Rightarrow> string \<times> nat \<times> nat" where
  \<comment> \<open>one iteration of the loop of lines 34-55\<close>
  "position_step st entry =
     (case st of (text, matched_count, unmatched_count) \<Rightarrow>
        (case position_find text entry of
           Some actual_pos \<Rightarrow>
             (splice text actual_pos (length (placeholder entry)) (original_text entry),
              matched_count + 1, unmatched_count)
         | None \<Rightarrow> (text, matched_count, unmatched_count + 1)))"

definition restore_by_position ::
  "string \<Rightarrow> replacement_record list \<Rightarrow> string \<times> nat \<times> nat" where
  "restore_by_position text replacement_log =
     foldl position_step (text, 0, 0) (position_order replacement_log)"

subsection \<open>Step B: context-based fuzzy matching\<close>

text \<open>
  \<open>difflib.SequenceMatcher\<close> and float arithmetic are the interpreter's: the
  parameter \<open>total_score\<close> is the float \<open>(score_before + score_after) / 2\<close> of
  lines 99-106, as a function of the current context before, the stored context
  before, the current context after and the stored context after. It is compared
  as a number, so its values are taken in \<^typ>\<open>rat\<close>.
\<close>

type_synonym similarity = "string \<Rightarrow> string \<Rightarrow> string \<Rightarrow> string \<Rightarrow> rat"

definition entry_score :: "similarity \<Rightarrow> string \<Rightarrow> string \<Rightarrow> replacement_record \<Rightarrow> rat" where
  \<comment> \<open>\<open>total_score\<close> of a record for the current contexts\<close>
  "entry_score total_score current_before current_after entry =
     total_score current_before (context_before entry) current_after (context_after entry)"

definition best_step ::
  "similarity \<Rightarrow> string \<Rightarrow> string \<Rightarrow> string \<Rightarrow> rat \<times> replacement_record option \<Rightarrow>
   replacement_record \<Rightarrow> rat \<times> replacement_record option" where
  \<comment> \<open>one iteration of the loop of lines 92-110 on \<open>(best_score, best_entry)\<close>\<close>
  "best_step total_score placeholder_text current_before current_after best entry =
     (if placeholder entry \<noteq> placeholder_text then best
      else
        let score = entry_score total_score current_before current_after entry
        in if score > fst best then (score, Some entry) else best)"

definition best_match ::
  "similarity \<Rightarrow> replacement_record list \<Rightarrow> string \<Rightarrow> string \<Rightarrow> string \<Rightarrow>
   rat \<times> replacement_record option" where
  "best_match total_score replacement_log placeholder_text current_before current_after =
     foldl (best_step total_score placeholder_text current_before current_after)
       (0, None) replacement_log"

definition context_step ::
  "similarity \<Rightarrow> replacement_record list \<Rightarrow> string \<times> nat \<Rightarrow> nat \<times> string \<Rightarrow> string \<times> nat" where
  \<comment> \<open>one iteration of the loop of lines 82-115\<close>
  "context_step total_score replacement_log st m =
     (case st of (text, context_matched) \<Rightarrow>
      case m of (pos, placeholder_text) \<Rightarrow>
        let current_before = window_before text pos;
            current_after = window_after text pos (length placeholder_text)
        in case best_match total_score replacement_log placeholder_text
                  current_before current_after of
             (best_score, None) \<Rightarrow> (text, context_matched)
           | (best_score, Some best_entry) \<Rightarrow>
               if best_score > 1 / 2
               then (splice text pos (length placeholder_text) (original_text best_entry),
                     context_matched + 1)
               else (text, context_matched))"

definition restore_by_context ::
  "similarity \<Rightarrow> string \<Rightarrow> replacement_record list \<Rightarrow> string \<times> nat" where
  "restore_by_context total_score text replacement_log =
     (let remaining_placeholders = finditer 0 text
      in if remaining_placeholders = [] then (text, 0)
         else foldl (context_step total_score replacement_log) (text, 0)
                (rev remaining_placeholders))"

subsection \<open>Step C: canonical name fallback\<close>

definition canonical_step ::
  "(string, placeholder_info) dict \<Rightarrow> string \<times> nat \<Rightarrow> nat \<times> string \<Rightarrow> string \<times> nat" where
  \<comment> \<open>one iteration of the loop of lines 139-149\<close>
  "canonical_step mappings st m =
     (case st of (text, fallback_count) \<Rightarrow>
      case m of (pos, placeholder_text) \<Rightarrow>
        (case dict_get mappings placeholder_text of
           None \<Rightarrow> (text, fallback_count)
         | Some info \<Rightarrow>
             let canonical_name = (case p_value info of None \<Rightarrow> placeholder_text | Some v \<Rightarrow> v)
             in (splice text pos (length placeholder_text) canonical_name, fallback_count + 1)))"

definition restore_by_canonical ::
  "string \<Rightarrow> (string, placeholder_info) dict \<Rightarrow> string \<times> nat" where
  "restore_by_canonical text mappings =
     foldl (canonical_step mappings) (text, 0) (rev (finditer 0 text))"

subsection \<open>The orchestrator\<close>

record stats =
  position_matched :: nat
  context_matched :: nat
  fallback_count :: nat
  remaining_placeholders :: nat
  total_in_log :: nat

definition run_deanonymize :: "similarity \<Rightarrow> string \<Rightarrow> mapping \<Rightarrow> string \<times> stats" where
  "run_deanonymize total_score text m =
     (let replacement_log = m_replacement_log m;
          mappings = m_mappings m
      in case restore_by_position text replacement_log of
           (text_a, matched, unmatched) \<Rightarrow>
             (case restore_by_context total_score text_a replacement_log of
                (text_b, ctx_matched) \<Rightarrow>
                  (case restore_by_canonical text_b mappings of
                     (text_c, fallback) \<Rightarrow>
                       (text_c,
                        \<lparr>position_matched = matched,
                         context_matched = ctx_matched,
                         fallback_count = fallback,
                         remaining_placeholders = length (finditer 0 text_c),
                         total_in_log = length replacement_log\<rparr>))))"

section \<open>Notions used to state the properties\<close>

definition ascii_upper :: "string \<Rightarrow> string" where
  \<comment> \<open>\<open>str.upper\<close> on ASCII text, used to run the engine on concrete inputs\<close>
  "ascii_upper s =
     map (\<lambda>c. let n = (of_char c :: nat) in if 97 \<le> n \<and> n \<le> 122 then char_of (n - 32) else c) s"

definition ent :: "string \<Rightarrow> string \<Rightarrow> string \<Rightarrow> entity" where
  "ent t ty c = \<lparr>e_text = t, e_type = ty, e_canonical = c\<rparr>"

definition group_count :: "(string \<Rightarrow> string) \<Rightarrow> string \<Rightarrow> (string, group_info) dict \<Rightarrow> nat" where
  \<comment> \<open>how many of the groups have the upper-cased type \<open>ty\<close>\<close>
  "group_count upper ty gs = length (filter (\<lambda>cg. upper (g_type (snd cg)) = ty) gs)"

definition group_placeholder ::
  "(string \<Rightarrow> string) \<Rightarrow> (string, group_info) dict \<Rightarrow> group_info \<Rightarrow> string" where
  \<comment> \<open>the id of a group that is processed after the groups \<open>before\<close>\<close>
  "group_placeholder upper before g =
     make_placeholder (upper (g_type g)) (Suc (group_count upper (upper (g_type g)) before))"

definition texts_distinct :: "(string, group_info) dict \<Rightarrow> bool" where
  \<comment> \<open>every member set is a set: no element twice\<close>
  "texts_distinct gs = (\<forall>cg \<in> set gs. distinct (g_texts (snd cg)))"

definition rec_of :: "string \<Rightarrow> string \<Rightarrow> int \<Rightarrow> replacement_record" where
  "rec_of ph orig pos = \<lparr>placeholder = ph, original_text = orig, position = pos,
     context_before = [], context_after = []\<rparr>"

definition table_ids :: "(string, placeholder_info) dict \<Rightarrow> (string \<times> string option \<times> string) list" where
  \<comment> \<open>the placeholder ids of the table in order, each with its value and type\<close>
  "table_ids d = map (\<lambda>kv. (fst kv, p_value (snd kv), p_type (snd kv))) d"

definition run_result ::
  "(string \<times> mapping) option \<Rightarrow>
   (string \<times> (string, placeholder_info) dict \<times> replacement_record list) option" where
  \<comment> \<open>the anonymized text, the placeholder table and the replacement log of a run\<close>
  "run_result r = map_option (\<lambda>tm. (fst tm, m_mappings (snd tm), m_replacement_log (snd tm))) r"

definition token_shape :: "string \<Rightarrow> string \<Rightarrow> string \<Rightarrow> bool" where
  \<comment> \<open>\<open>tok\<close> is \<open>{\<close>, the letters \<open>up\<close>, \<open>_\<close>, the digits \<open>ds\<close>, \<open>}\<close>\<close>
  "token_shape tok up ds =
     (tok = CHR ''{'' # up @ CHR ''_'' # ds @ [CHR ''}''] \<and> up \<noteq> [] \<and> ds \<noteq> [] \<and>
      (\<forall>c \<in> set up. is_AZ c) \<and> (\<forall>c \<in> set ds. is_digit c))"

definition round_trip ::
  "similarity \<Rightarrow> (string \<Rightarrow> string) \<Rightarrow> (string list \<Rightarrow> string list) \<Rightarrow> string \<Rightarrow> entity list \<Rightarrow>
   alias_group list \<Rightarrow> (string \<times> stats) option" where
  \<comment> \<open>\<open>run_deanonymize\<close> on the unedited result of \<open>execute_replacement\<close>\<close>
  "round_trip total_score upper iter text entities aliases =
     (case execute_replacement upper iter text entities aliases [] of
        None \<Rightarrow> None
      | Some (anonymized_text, m) \<Rightarrow> Some (run_deanonymize total_score anonymized_text m))"

definition same_iteration ::
  "(string list \<Rightarrow> string list) \<Rightarrow> (string list \<Rightarrow> string list) \<Rightarrow>
   (string, group_info) dict \<Rightarrow> bool" where
  \<comment> \<open>both runs iterate the member sets of the groups in the same order\<close>
  "same_iteration iter1 iter2 gs =
     (\<forall>cg \<in> set gs. iter1 (g_texts (snd cg)) = iter2 (g_texts (snd cg)) \<and>
        iter1 (removeAll (fst cg) (g_texts (snd cg))) =
        iter2 (removeAll (fst cg) (g_texts (snd cg))))"

definition known_tokens :: "(string, placeholder_info) dict \<Rightarrow> string \<Rightarrow> (nat \<times> string) list" where
  \<comment> \<open>the tokens of the text whose id is a key of \<open>mappings\<close>\<close>
  "known_tokens mappings text =
     filter (\<lambda>m. dict_get mappings (snd m) \<noteq> None) (finditer 0 text)"

definition unknown_tokens :: "(string, placeholder_info) dict \<Rightarrow> string \<Rightarrow> (nat \<times> string) list" where
  \<comment> \<open>the tokens of the text whose id is absent from \<open>mappings\<close>\<close>
  "unknown_tokens mappings text =
     filter (\<lambda>m. dict_get mappings (snd m) = None) (finditer 0 text)"

fun canonical_spec :: "(string, placeholder_info) dict \<Rightarrow> string \<Rightarrow> string" where
  \<comment> \<open>Step C as the specification words it, from left to right: a token whose id
      is in \<open>mappings\<close> becomes the entry's \<open>value\<close>, any other token and any other
      character is copied\<close>
  "canonical_spec mappings [] = []"
| "canonical_spec mappings (c # cs) =
     (case match_token (c # cs) of
        None \<Rightarrow> c # canonical_spec mappings cs
      | Some tok \<Rightarrow>
          (case dict_get mappings tok of
             None \<Rightarrow> tok
           | Some info \<Rightarrow> (case p_value info of None \<Rightarrow> tok | Some v \<Rightarrow> v))
          @ canonical_spec mappings (drop (length tok - 1) cs))"

type_synonym segment = "string \<times> string \<times> string"

definition anonymized_of :: "string \<Rightarrow> segment list \<Rightarrow> string" where
  \<comment> \<open>a text laid out as a first gap and segments (literal, placeholder, gap after):
      the anonymized side, with the placeholders\<close>
  "anonymized_of gap0 segs = gap0 @ concat (map (\<lambda>s. fst (snd s) @ snd (snd s)) segs)"

definition source_of :: "string \<Rightarrow> segment list \<Rightarrow> string" where
  \<comment> \<open>the same layout with the literals in place of the placeholders\<close>
  "source_of gap0 segs = gap0 @ concat (map (\<lambda>s. fst s @ snd (snd s)) segs)"

definition seg_pairs :: "segment list \<Rightarrow> (string \<times> string) list" where
  "seg_pairs segs = map (\<lambda>s. (fst s, fst (snd s))) segs"

definition log_pairs :: "replacement_record list \<Rightarrow> (string \<times> string) list" where
  "log_pairs replacement_log = map (\<lambda>r. (original_text r, placeholder r)) replacement_log"

definition segmented ::
  "(string, string) dict \<Rightarrow> string \<Rightarrow> string \<Rightarrow> replacement_record list \<Rightarrow> bool" where
  \<comment> \<open>the invariant of the substitution loops: the buffer is the source with
      disjoint occurrences of literals replaced, one for each record of the log\<close>
  "segmented d src buf rlog =
     (\<exists>g0 segs. buf = anonymized_of g0 segs \<and> src = source_of g0 segs \<and>
        (\<forall>s \<in> set segs. (fst s, fst (snd s)) \<in> set d) \<and>
        mset (seg_pairs segs) = mset (log_pairs rlog))"

section \<open>Dictionaries and canonical groups\<close>

lemma dict_get_dict_set: "dict_get (dict_set k v d) k' = (if k' = k then Some v else dict_get d k')"
  by (induction d) (auto simp: dict_get_def)

lemma dict_keys_dict_set: "set (dict_keys (dict_set k v d)) = insert k (set (dict_keys d))"
  by (induction k v d rule: dict_set.induct) (auto simp: dict_keys_def)

lemma distinct_dict_set: "distinct (dict_keys d) \<Longrightarrow> distinct (dict_keys (dict_set k v d))"
proof (induction d)
  case Nil
  then show ?case by (simp add: dict_keys_def)
next
  case (Cons a d)
  obtain k' v' where a: "a = (k', v')" by (cases a)
  have "set (dict_keys (dict_set k v d)) = insert k (set (dict_keys d))"
    by (rule dict_keys_dict_set)
  with Cons a show ?case by (auto simp: dict_keys_def)
qed

lemma dict_keys_dict_modify: "dict_keys (dict_modify k f d) = dict_keys d"
  by (induction d) (auto simp: dict_keys_def dict_modify_def)

lemma dict_get_fold_set:
  "dict_get (foldl (\<lambda>d t. dict_set t p d) d ts) k = (if k \<in> set ts then Some p else dict_get d k)"
  by (induction ts arbitrary: d) (auto simp: dict_get_dict_set)

lemma distinct_fold_set:
  "distinct (dict_keys d) \<Longrightarrow> distinct (dict_keys (foldl (\<lambda>d t. dict_set t p d) d ts))"
  by (induction ts arbitrary: d) (auto simp: distinct_dict_set)

lemma group_count_snoc:
  "group_count upper ty (gs @ [(k, g)]) =
     group_count upper ty gs + (if upper (g_type g) = ty then 1 else 0)"
  by (simp add: group_count_def)

lemma assign_counters:
  "dict_get (fst (assign_placeholders upper iter gs)) ty =
     (if group_count upper ty gs = 0 then None else Some (group_count upper ty gs))"
proof (induction gs arbitrary: ty rule: rev_induct)
  case Nil
  then show ?case by (simp add: assign_placeholders_def group_count_def dict_get_def)
next
  case (snoc x gs)
  note IH = snoc
  obtain tc pm t2p where st: "assign_placeholders upper iter gs = (tc, pm, t2p)"
    by (cases "assign_placeholders upper iter gs") auto
  obtain k g where x: "x = (k, g)" by (cases x)
  have step: "assign_placeholders upper iter (gs @ [x]) = assign_step upper iter (tc, pm, t2p) (k, g)"
    using st x by (simp add: assign_placeholders_def)
  from snoc st have tc: "dict_get tc ty = (if group_count upper ty gs = 0 then None else Some (group_count upper ty gs))"
    by simp
  show ?case
    unfolding step using tc x
    by (auto simp: assign_step_def Let_def dict_get_dict_set group_count_snoc split: option.splits if_splits)
qed


lemma literal_map_snoc:
  "literal_map upper iter (gs @ [(k, g)]) =
     foldl (\<lambda>d t. dict_set t (group_placeholder upper gs g) d) (literal_map upper iter gs)
       (iter (g_texts g))"
proof -
  obtain tc pm t2p where st: "assign_placeholders upper iter gs = (tc, pm, t2p)"
    by (cases "assign_placeholders upper iter gs") auto
  have step: "assign_placeholders upper iter (gs @ [(k, g)]) = assign_step upper iter (tc, pm, t2p) (k, g)"
    using st by (simp add: assign_placeholders_def)
  have "dict_get tc (upper (g_type g)) =
          (if group_count upper (upper (g_type g)) gs = 0 then None
           else Some (group_count upper (upper (g_type g)) gs))"
    using assign_counters [of upper iter gs "upper (g_type g)"] st by simp
  then have n: "(case dict_get tc (upper (g_type g)) of None \<Rightarrow> 1 | Some c \<Rightarrow> c + 1) =
          Suc (group_count upper (upper (g_type g)) gs)"
    by (simp split: if_splits)
  show ?thesis
    unfolding literal_map_def step using st n
    by (simp add: assign_step_def Let_def group_placeholder_def)
qed

lemma literal_map_last:
  assumes "set_order iter" and "texts_distinct (pre @ (k, g) # post)"
    and "t \<in> set (g_texts g)" and "\<forall>cg \<in> set post. t \<notin> set (g_texts (snd cg))"
  shows "dict_get (literal_map upper iter (pre @ (k, g) # post)) t =
           Some (group_placeholder upper pre g)"
  using assms(2,4)
proof (induction post rule: rev_induct)
  case Nil
  have "distinct (g_texts g)" using Nil by (simp add: texts_distinct_def)
  then have "set (iter (g_texts g)) = set (g_texts g)"
    using assms(1) by (simp add: set_order_def)
  then show ?case using assms(3) by (simp add: literal_map_snoc dict_get_fold_set)
next
  case (snoc x post)
  obtain k' g' where x: "x = (k', g')" by (cases x)
  have "distinct (g_texts g')" using snoc.prems x by (simp add: texts_distinct_def)
  then have "set (iter (g_texts g')) = set (g_texts g')"
    using assms(1) by (simp add: set_order_def)
  moreover have "t \<notin> set (g_texts g')" using snoc.prems x by simp
  moreover have "dict_get (literal_map upper iter (pre @ (k, g) # post)) t =
           Some (group_placeholder upper pre g)"
    using snoc by (simp add: texts_distinct_def)
  moreover have "literal_map upper iter (pre @ (k, g) # post @ [x]) =
      foldl (\<lambda>d t. dict_set t (group_placeholder upper (pre @ (k, g) # post) g') d)
        (literal_map upper iter (pre @ (k, g) # post)) (iter (g_texts g'))"
    using literal_map_snoc [of upper iter "pre @ (k, g) # post" k' g'] x by simp
  ultimately show ?case by (simp add: dict_get_fold_set)
qed

lemma literal_map_distinct: "distinct (dict_keys (literal_map upper iter gs))"
proof (induction gs rule: rev_induct)
  case Nil
  then show ?case by (simp add: literal_map_def assign_placeholders_def dict_keys_def)
next
  case (snoc x gs)
  obtain k g where x: "x = (k, g)" by (cases x)
  show ?case unfolding x literal_map_snoc using snoc by (rule distinct_fold_set)
qed

lemma distinct_set_add: "distinct xs \<Longrightarrow> distinct (set_add x xs)"
  by (simp add: set_add_def)

lemma texts_distinct_dict_set:
  "texts_distinct gs \<Longrightarrow> distinct (g_texts v) \<Longrightarrow> texts_distinct (dict_set k v gs)"
  by (induction k v gs rule: dict_set.induct) (auto simp: texts_distinct_def)

lemma texts_distinct_dict_modify:
  "texts_distinct gs \<Longrightarrow> (\<And>g. distinct (g_texts g) \<Longrightarrow> distinct (g_texts (f g))) \<Longrightarrow>
   texts_distinct (dict_modify k f gs)"
  by (auto simp: texts_distinct_def dict_modify_def split: if_splits)

lemma texts_distinct_add_entity: "texts_distinct gs \<Longrightarrow> texts_distinct (add_entity gs e)"
  by (auto simp: add_entity_def Let_def distinct_set_add
      intro!: texts_distinct_dict_modify texts_distinct_dict_set)

lemma texts_distinct_add_alias: "texts_distinct gs \<Longrightarrow> texts_distinct (add_alias c gs a)"
  by (auto simp: add_alias_def distinct_set_add intro!: texts_distinct_dict_modify)

lemma texts_distinct_add_aliases:
  "texts_distinct gs \<Longrightarrow> texts_distinct (foldl (add_alias c) gs as)"
  by (induction as arbitrary: gs) (auto simp: texts_distinct_add_alias)

lemma texts_distinct_add_alias_group:
  "texts_distinct gs \<Longrightarrow> texts_distinct (add_alias_group gs ag)"
  by (simp add: add_alias_group_def Let_def texts_distinct_add_aliases)

lemma texts_distinct_entities: "texts_distinct gs \<Longrightarrow> texts_distinct (foldl add_entity gs es)"
  by (induction es arbitrary: gs) (auto simp: texts_distinct_add_entity)

lemma texts_distinct_alias_groups:
  "texts_distinct gs \<Longrightarrow> texts_distinct (foldl add_alias_group gs ags)"
  by (induction ags arbitrary: gs) (auto simp: texts_distinct_add_alias_group)

lemma texts_distinct_build_groups: "texts_distinct (build_groups entities aliases)"
  unfolding build_groups_def
  by (rule texts_distinct_alias_groups, rule texts_distinct_entities) (simp add: texts_distinct_def)

section \<open>The flat literal map\<close>

text \<open>
  Claim C9 (literal-collision overwrite). When a literal \<open>t\<close> belongs to the member
  sets of two canonical groups, the flat literal-to-placeholder map first gives \<open>t\<close>
  the placeholder of the earlier group (the map as it stands when the loop has
  processed that group) and in the end the placeholder of the last group that has
  \<open>t\<close> among its members; the keys of the map are distinct, so every literal has
  exactly one placeholder at substitution time. This holds for every order in which
  the member sets are iterated.
\<close>

theorem literal_collision_overwrite:
  assumes "set_order iter"
    and "build_groups entities aliases = pre @ (k1, g1) # mid @ (k2, g2) # post"
    and "t \<in> set (g_texts g1)" and "t \<in> set (g_texts g2)"
    and "\<forall>cg \<in> set post. t \<notin> set (g_texts (snd cg))"
  shows "dict_get (literal_map upper iter (pre @ [(k1, g1)])) t =
           Some (group_placeholder upper pre g1) \<and>
         dict_get (literal_map upper iter (build_groups entities aliases)) t =
           Some (group_placeholder upper (pre @ (k1, g1) # mid) g2) \<and>
         distinct (dict_keys (literal_map upper iter (build_groups entities aliases)))"
proof -
  have all: "texts_distinct (pre @ (k1, g1) # mid @ (k2, g2) # post)"
    using texts_distinct_build_groups [of entities aliases] assms(2) by simp
  then have first: "texts_distinct (pre @ (k1, g1) # [])"
    by (simp add: texts_distinct_def)
  have a: "dict_get (literal_map upper iter (pre @ (k1, g1) # [])) t =
             Some (group_placeholder upper pre g1)"
    by (rule literal_map_last [OF assms(1) first assms(3)]) simp
  have all': "texts_distinct ((pre @ (k1, g1) # mid) @ (k2, g2) # post)"
    using all by simp
  have "dict_get (literal_map upper iter ((pre @ (k1, g1) # mid) @ (k2, g2) # post)) t =
          Some (group_placeholder upper (pre @ (k1, g1) # mid) g2)"
    by (rule literal_map_last [OF assms(1) all' assms(4) assms(5)])
  then have b: "dict_get (literal_map upper iter (build_groups entities aliases)) t =
          Some (group_placeholder upper (pre @ (k1, g1) # mid) g2)"
    using assms(2) by simp
  show ?thesis using a b literal_map_distinct by simp
qed

theorem literal_collision_overwrite_witness:
  "dict_get (literal_map ascii_upper id
      [(''John Smith'', \<lparr>g_type = ''person'', g_texts = [''Smith'', ''John Smith''], g_aliases = []\<rparr>)])
      ''Smith'' = Some ''{PERSON_1}'' \<and>
   dict_get (literal_map ascii_upper id
      (build_groups [ent ''Smith'' ''person'' ''John Smith'', ent ''Smith'' ''person'' ''Jane Smith''] []))
      ''Smith'' = Some ''{PERSON_2}''"
proof -
  let ?g1 = "\<lparr>g_type = ''person'', g_texts = [''Smith'', ''John Smith''], g_aliases = []\<rparr>"
  let ?g2 = "\<lparr>g_type = ''person'', g_texts = [''Smith'', ''Jane Smith''], g_aliases = []\<rparr>"
  have ord: "set_order id" by (simp add: set_order_def)
  have gs: "build_groups [ent ''Smith'' ''person'' ''John Smith'', ent ''Smith'' ''person'' ''Jane Smith''] []
      = [] @ (''John Smith'', ?g1) # [] @ (''Jane Smith'', ?g2) # []"
    by code_simp
  have t1: "''Smith'' \<in> set (g_texts ?g1)" by simp
  have t2: "''Smith'' \<in> set (g_texts ?g2)" by simp
  have none: "\<forall>cg \<in> set []. ''Smith'' \<notin> set (g_texts (snd cg))" by simp
  have p1: "group_placeholder ascii_upper [] ?g1 = ''{PERSON_1}''" by code_simp
  have p2: "group_placeholder ascii_upper ([] @ (''John Smith'', ?g1) # []) ?g2 = ''{PERSON_2}''"
    by code_simp
  show ?thesis
    using literal_collision_overwrite [OF ord gs t1 t2 none, of ascii_upper] p1 p2 by simp
qed

section \<open>Blank mentions\<close>

lemma add_entity_blank: "strip (e_text e) = [] \<Longrightarrow> add_entity gs e = gs"
  by (simp add: add_entity_def)

lemma build_groups_blank:
  "strip (e_text e) = [] \<Longrightarrow>
   build_groups (es1 @ e # es2) aliases = build_groups (es1 @ es2) aliases"
  by (simp add: build_groups_def add_entity_blank)

text \<open>
  Claim C7 (empty-mention exclusion). A mention whose text is empty or consists of
  white space only leaves the canonical groups as they are; with or without it in
  the list of mentions, the groups are the same and \<open>execute_replacement\<close> gives
  the same result: the same text, placeholders and replacement log. No branch of
  the loop raises for such a mention.
\<close>

theorem empty_mention_dropped:
  assumes "strip (e_text e) = []"
  shows "add_entity canonical_groups e = canonical_groups \<and>
         build_groups (es1 @ e # es2) aliases = build_groups (es1 @ es2) aliases \<and>
         execute_replacement upper iter text (es1 @ e # es2) aliases source_filename =
           execute_replacement upper iter text (es1 @ es2) aliases source_filename"
  using assms by (simp add: add_entity_blank build_groups_blank execute_replacement_def)

theorem empty_mention_dropped_witness:
  "strip (e_text (ent ''  '' ''person'' ''Acme'')) = [] \<and>
   execute_replacement ascii_upper id ''Bob met Acme''
     ([ent ''Bob'' ''person'' ''''] @ ent ''  '' ''person'' ''Acme'' # []) [] ''a.txt'' =
   Some (''{PERSON_1} met Acme'',
         \<lparr>m_metadata = \<lparr>source_file = ''a.txt'', entity_count = 1\<rparr>,
          m_mappings = [(''{PERSON_1}'', \<lparr>p_value = Some ''Bob'', p_type = ''person'', p_aliases = []\<rparr>)],
          m_replacement_log = [\<lparr>placeholder = ''{PERSON_1}'', original_text = ''Bob'', position = 0,
             context_before = [], context_after = '' met Acme''\<rparr>]\<rparr>)"
proof -
  have blank: "strip (e_text (ent ''  '' ''person'' ''Acme'')) = []" by code_simp
  have run: "execute_replacement ascii_upper id ''Bob met Acme''
     ([ent ''Bob'' ''person'' ''''] @ []) [] ''a.txt'' =
   Some (''{PERSON_1} met Acme'',
         \<lparr>m_metadata = \<lparr>source_file = ''a.txt'', entity_count = 1\<rparr>,
          m_mappings = [(''{PERSON_1}'', \<lparr>p_value = Some ''Bob'', p_type = ''person'', p_aliases = []\<rparr>)],
          m_replacement_log = [\<lparr>placeholder = ''{PERSON_1}'', original_text = ''Bob'', position = 0,
             context_before = [], context_after = '' met Acme''\<rparr>]\<rparr>)"
    by code_simp
  show ?thesis
    using empty_mention_dropped [OF blank, of _ "[ent ''Bob'' ''person'' '''']" "[]" "[]" ascii_upper id
        "''Bob met Acme''" "''a.txt''"] blank run
    by simp
qed

section \<open>Step B: the best candidate\<close>

lemma best_fold:
  assumes "foldl (best_step ts tok cb ca) (b0, e0) rlog = (bs, be)"
  shows "(bs = b0 \<and> be = e0 \<and> (\<forall>e' \<in> set rlog. placeholder e' = tok \<longrightarrow> entry_score ts cb ca e' \<le> b0)) \<or>
         (\<exists>pre e post. rlog = pre @ e # post \<and> placeholder e = tok \<and> be = Some e \<and>
            bs = entry_score ts cb ca e \<and> b0 < bs \<and>
            (\<forall>e' \<in> set pre. placeholder e' = tok \<longrightarrow> entry_score ts cb ca e' < bs) \<and>
            (\<forall>e' \<in> set post. placeholder e' = tok \<longrightarrow> entry_score ts cb ca e' \<le> bs))"
  using assms
proof (induction rlog arbitrary: b0 e0)
  case Nil
  then show ?case by simp
next
  case (Cons x rlog)
  let ?sc = "entry_score ts cb ca"
  show ?case
  proof (cases "placeholder x = tok \<and> b0 < ?sc x")
    case True
    then have "best_step ts tok cb ca (b0, e0) x = (?sc x, Some x)"
      by (simp add: best_step_def Let_def)
    then have "foldl (best_step ts tok cb ca) (?sc x, Some x) rlog = (bs, be)"
      using Cons.prems by simp
    from Cons.IH [OF this] show ?thesis
    proof
      assume a: "bs = ?sc x \<and> be = Some x \<and> (\<forall>e' \<in> set rlog. placeholder e' = tok \<longrightarrow> ?sc e' \<le> ?sc x)"
      show ?thesis
        apply (rule disjI2)
        apply (rule exI [of _ "[]"])
        apply (rule exI [of _ x])
        apply (rule exI [of _ rlog])
        using a True apply simp
        done
    next
      assume "\<exists>pre e post. rlog = pre @ e # post \<and> placeholder e = tok \<and> be = Some e \<and>
            bs = ?sc e \<and> ?sc x < bs \<and>
            (\<forall>e' \<in> set pre. placeholder e' = tok \<longrightarrow> ?sc e' < bs) \<and>
            (\<forall>e' \<in> set post. placeholder e' = tok \<longrightarrow> ?sc e' \<le> bs)"
      then obtain pre e post where b: "rlog = pre @ e # post" "placeholder e = tok" "be = Some e"
            "bs = ?sc e" "?sc x < bs"
            "\<forall>e' \<in> set pre. placeholder e' = tok \<longrightarrow> ?sc e' < bs"
            "\<forall>e' \<in> set post. placeholder e' = tok \<longrightarrow> ?sc e' \<le> bs" by auto
      have lt: "b0 < bs" using True b(5) by simp
      show ?thesis
        apply (rule disjI2)
        apply (rule exI [of _ "x # pre"])
        apply (rule exI [of _ e])
        apply (rule exI [of _ post])
        using b lt apply simp
        done
    qed
  next
    case False
    then have "best_step ts tok cb ca (b0, e0) x = (b0, e0)"
      by (auto simp: best_step_def Let_def)
    then have "foldl (best_step ts tok cb ca) (b0, e0) rlog = (bs, be)"
      using Cons.prems by simp
    from Cons.IH [OF this] show ?thesis
    proof
      assume a: "bs = b0 \<and> be = e0 \<and> (\<forall>e' \<in> set rlog. placeholder e' = tok \<longrightarrow> ?sc e' \<le> b0)"
      show ?thesis
        apply (rule disjI1)
        using a False apply auto
        done
    next
      assume "\<exists>pre e post. rlog = pre @ e # post \<and> placeholder e = tok \<and> be = Some e \<and>
            bs = ?sc e \<and> b0 < bs \<and>
            (\<forall>e' \<in> set pre. placeholder e' = tok \<longrightarrow> ?sc e' < bs) \<and>
            (\<forall>e' \<in> set post. placeholder e' = tok \<longrightarrow> ?sc e' \<le> bs)"
      then obtain pre e post where b: "rlog = pre @ e # post" "placeholder e = tok" "be = Some e"
            "bs = ?sc e" "b0 < bs"
            "\<forall>e' \<in> set pre. placeholder e' = tok \<longrightarrow> ?sc e' < bs"
            "\<forall>e' \<in> set post. placeholder e' = tok \<longrightarrow> ?sc e' \<le> bs" by auto
      have x: "placeholder x = tok \<longrightarrow> ?sc x < bs" using False b(5) by auto
      show ?thesis
        apply (rule disjI2)
        apply (rule exI [of _ "x # pre"])
        apply (rule exI [of _ e])
        apply (rule exI [of _ post])
        using b x apply simp
        done
    qed
  qed
qed

text \<open>
  Claim C10 (Step B tie-break). The loop over the replacement log keeps the first
  record that attains the maximal score among the records of the token's id: every
  candidate before the selected record scores strictly less, every candidate after
  it scores at most as much, since the running best is replaced only by a strictly
  greater score. No record is selected exactly when no candidate scores above 0.
\<close>

theorem context_tie_break:
  assumes "best_match total_score replacement_log tok cb ca = (best_score, best_entry)"
  shows "case best_entry of
           None \<Rightarrow> best_score = 0 \<and>
             (\<forall>e' \<in> set replacement_log. placeholder e' = tok \<longrightarrow>
                entry_score total_score cb ca e' \<le> 0)
         | Some e \<Rightarrow>
             \<exists>pre post. replacement_log = pre @ e # post \<and> placeholder e = tok \<and>
               best_score = entry_score total_score cb ca e \<and> 0 < best_score \<and>
               (\<forall>e' \<in> set pre. placeholder e' = tok \<longrightarrow>
                  entry_score total_score cb ca e' < best_score) \<and>
               (\<forall>e' \<in> set post. placeholder e' = tok \<longrightarrow>
                  entry_score total_score cb ca e' \<le> best_score)"
proof -
  have f: "foldl (best_step total_score tok cb ca) (0, None) replacement_log =
             (best_score, best_entry)"
    using assms by (simp add: best_match_def)
  from best_fold [OF f] show ?thesis
  proof
    assume "best_score = 0 \<and> best_entry = None \<and>
      (\<forall>e' \<in> set replacement_log. placeholder e' = tok \<longrightarrow> entry_score total_score cb ca e' \<le> 0)"
    then show ?thesis by simp
  next
    assume "\<exists>pre e post. replacement_log = pre @ e # post \<and> placeholder e = tok \<and>
       best_entry = Some e \<and> best_score = entry_score total_score cb ca e \<and> 0 < best_score \<and>
       (\<forall>e' \<in> set pre. placeholder e' = tok \<longrightarrow> entry_score total_score cb ca e' < best_score) \<and>
       (\<forall>e' \<in> set post. placeholder e' = tok \<longrightarrow> entry_score total_score cb ca e' \<le> best_score)"
    then obtain pre e post where b: "replacement_log = pre @ e # post" "placeholder e = tok"
       "best_entry = Some e" "best_score = entry_score total_score cb ca e" "0 < best_score"
       "\<forall>e' \<in> set pre. placeholder e' = tok \<longrightarrow> entry_score total_score cb ca e' < best_score"
       "\<forall>e' \<in> set post. placeholder e' = tok \<longrightarrow> entry_score total_score cb ca e' \<le> best_score"
      by auto
    have "\<exists>pre post. replacement_log = pre @ e # post \<and> placeholder e = tok \<and>
               best_score = entry_score total_score cb ca e \<and> 0 < best_score \<and>
               (\<forall>e' \<in> set pre. placeholder e' = tok \<longrightarrow>
                  entry_score total_score cb ca e' < best_score) \<and>
               (\<forall>e' \<in> set post. placeholder e' = tok \<longrightarrow>
                  entry_score total_score cb ca e' \<le> best_score)"
      apply (rule exI [of _ pre])
      apply (rule exI [of _ post])
      using b apply simp
      done
    then show ?thesis using b(3) by simp
  qed
qed

theorem context_tie_break_witness:
  "best_match (\<lambda>cb sb ca sa. 1) [rec_of ''{A_1}'' ''Ann'' 0, rec_of ''{A_1}'' ''Anna'' 9]
      ''{A_1}'' [] [] = (1, Some (rec_of ''{A_1}'' ''Ann'' 0)) \<and>
   (\<exists>pre post. [rec_of ''{A_1}'' ''Ann'' 0, rec_of ''{A_1}'' ''Anna'' 9] =
        pre @ rec_of ''{A_1}'' ''Ann'' 0 # post \<and>
      (\<forall>e' \<in> set pre. placeholder e' = ''{A_1}'' \<longrightarrow>
         entry_score (\<lambda>cb sb ca sa. 1) [] [] e' < 1))"
proof -
  have h: "best_match (\<lambda>cb sb ca sa. 1) [rec_of ''{A_1}'' ''Ann'' 0, rec_of ''{A_1}'' ''Anna'' 9]
      ''{A_1}'' [] [] = (1, Some (rec_of ''{A_1}'' ''Ann'' 0))"
    by (simp add: best_match_def best_step_def entry_score_def rec_of_def)
  from context_tie_break [OF h] have
    "\<exists>pre post. [rec_of ''{A_1}'' ''Ann'' 0, rec_of ''{A_1}'' ''Anna'' 9] =
        pre @ rec_of ''{A_1}'' ''Ann'' 0 # post \<and>
      (\<forall>e' \<in> set pre. placeholder e' = ''{A_1}'' \<longrightarrow>
         entry_score (\<lambda>cb sb ca sa. 1) [] [] e' < 1)"
    by auto
  with h show ?thesis by simp
qed

section \<open>Step B: one iteration\<close>

lemma context_step_cases:
  assumes "context_step total_score replacement_log (text, n) (pos, tok) = (text', n')"
  shows "(if \<exists>e \<in> set replacement_log. placeholder e = tok \<and>
              1 / 2 < entry_score total_score (window_before text pos)
                        (window_after text pos (length tok)) e
          then \<exists>e \<in> set replacement_log. placeholder e = tok \<and>
                 1 / 2 < entry_score total_score (window_before text pos)
                           (window_after text pos (length tok)) e \<and>
                 (\<forall>e' \<in> set replacement_log. placeholder e' = tok \<longrightarrow>
                    entry_score total_score (window_before text pos)
                      (window_after text pos (length tok)) e' \<le>
                    entry_score total_score (window_before text pos)
                      (window_after text pos (length tok)) e) \<and>
                 text' = splice text pos (length tok) (original_text e) \<and> n' = n + 1
          else text' = text \<and> n' = n)"
proof -
  let ?cb = "window_before text pos" and ?ca = "window_after text pos (length tok)"
  let ?sc = "entry_score total_score ?cb ?ca"
  obtain bs be where bm: "best_match total_score replacement_log tok ?cb ?ca = (bs, be)"
    by (cases "best_match total_score replacement_log tok ?cb ?ca") auto
  have f: "foldl (best_step total_score tok ?cb ?ca) (0, None) replacement_log = (bs, be)"
    using bm by (simp add: best_match_def)
  from best_fold [OF f] show ?thesis
  proof
    assume a: "bs = 0 \<and> be = None \<and>
      (\<forall>e' \<in> set replacement_log. placeholder e' = tok \<longrightarrow> ?sc e' \<le> 0)"
    then have "text' = text \<and> n' = n"
      using assms bm by (simp add: context_step_def Let_def)
    moreover have "\<not> (\<exists>e \<in> set replacement_log. placeholder e = tok \<and> 1 / 2 < ?sc e)"
      using a by fastforce
    ultimately show ?thesis by simp
  next
    assume "\<exists>pre e post. replacement_log = pre @ e # post \<and> placeholder e = tok \<and>
       be = Some e \<and> bs = ?sc e \<and> 0 < bs \<and>
       (\<forall>e' \<in> set pre. placeholder e' = tok \<longrightarrow> ?sc e' < bs) \<and>
       (\<forall>e' \<in> set post. placeholder e' = tok \<longrightarrow> ?sc e' \<le> bs)"
    then obtain pre e post where b: "replacement_log = pre @ e # post" "placeholder e = tok"
       "be = Some e" "bs = ?sc e" "0 < bs"
       "\<forall>e' \<in> set pre. placeholder e' = tok \<longrightarrow> ?sc e' < bs"
       "\<forall>e' \<in> set post. placeholder e' = tok \<longrightarrow> ?sc e' \<le> bs"
      by auto
    have mem: "e \<in> set replacement_log" using b(1) by simp
    have mx: "\<forall>e' \<in> set replacement_log. placeholder e' = tok \<longrightarrow> ?sc e' \<le> ?sc e"
      using b(1,4,6,7) by auto
    show ?thesis
    proof (cases "1 / 2 < ?sc e")
      case True
      have "text' = splice text pos (length tok) (original_text e) \<and> n' = n + 1"
        using assms bm b(3,4) True by (simp add: context_step_def Let_def)
      then have "\<exists>e \<in> set replacement_log. placeholder e = tok \<and> 1 / 2 < ?sc e \<and>
                 (\<forall>e' \<in> set replacement_log. placeholder e' = tok \<longrightarrow> ?sc e' \<le> ?sc e) \<and>
                 text' = splice text pos (length tok) (original_text e) \<and> n' = n + 1"
        using mem b(2) True mx by (intro bexI [of _ e]) simp_all
      moreover have "\<exists>e \<in> set replacement_log. placeholder e = tok \<and> 1 / 2 < ?sc e"
        using mem b(2) True by (intro bexI [of _ e]) simp_all
      ultimately show ?thesis by simp
    next
      case False
      have "text' = text \<and> n' = n"
        using assms bm b(3,4) False by (simp add: context_step_def Let_def)
      moreover have "\<not> (\<exists>e \<in> set replacement_log. placeholder e = tok \<and> 1 / 2 < ?sc e)"
        using mx False by fastforce
      ultimately show ?thesis by simp
    qed
  qed
qed

lemma context_step_below:
  assumes "\<forall>cb sb ca sa. total_score cb sb ca sa \<le> 1 / 2"
  shows "context_step total_score replacement_log (text, n) m = (text, n)"
proof -
  obtain pos tok where m: "m = (pos, tok)" by (cases m)
  obtain text' n' where r: "context_step total_score replacement_log (text, n) (pos, tok) = (text', n')"
    by (cases "context_step total_score replacement_log (text, n) (pos, tok)") auto
  have "\<not> (\<exists>e \<in> set replacement_log. placeholder e = tok \<and>
              1 / 2 < entry_score total_score (window_before text pos)
                        (window_after text pos (length tok)) e)"
    using assms by (auto simp: entry_score_def not_less)
  with context_step_cases [OF r] have "text' = text \<and> n' = n" by simp
  with r m show ?thesis by simp
qed

lemma context_fold_below:
  assumes "\<forall>cb sb ca sa. total_score cb sb ca sa \<le> 1 / 2"
  shows "foldl (context_step total_score replacement_log) (text, n) ms = (text, n)"
  by (induction ms) (simp_all add: context_step_below [OF assms])

section \<open>String search\<close>

lemma find_at_Some:
  "find_at s sub i = Some p \<Longrightarrow>
     i \<le> p \<and> p - i \<le> length s \<and> prefix sub (drop (p - i) s) \<and>
     (\<forall>j < p - i. \<not> prefix sub (drop j s))"
proof (induction s sub i rule: find_at.induct)
  case (1 sub i)
  then show ?case by (simp split: if_splits)
next
  case (2 c cs sub i)
  show ?case
  proof (cases "prefix sub (c # cs)")
    case True
    with 2 show ?thesis by simp
  next
    case False
    with 2 have r: "find_at cs sub (Suc i) = Some p" by simp
    from "2.IH" [OF False r] have ih: "Suc i \<le> p" "p - Suc i \<le> length cs"
      "prefix sub (drop (p - Suc i) cs)" "\<forall>j < p - Suc i. \<not> prefix sub (drop j cs)"
      by auto
    have eq: "p - i = Suc (p - Suc i)" using ih(1) by simp
    have "\<forall>j < p - i. \<not> prefix sub (drop j (c # cs))"
    proof (intro allI impI)
      fix j assume "j < p - i"
      show "\<not> prefix sub (drop j (c # cs))"
      proof (cases j)
        case 0
        then show ?thesis using False by simp
      next
        case (Suc k)
        then have "k < p - Suc i" using \<open>j < p - i\<close> eq by simp
        then show ?thesis using ih(4) Suc by simp
      qed
    qed
    then show ?thesis using ih eq by simp
  qed
qed

lemma find_at_None:
  "find_at s sub i = None \<Longrightarrow> j \<le> length s \<Longrightarrow> \<not> prefix sub (drop j s)"
proof (induction s sub i arbitrary: j rule: find_at.induct)
  case (1 sub i)
  then show ?case by (simp split: if_splits)
next
  case (2 c cs sub i)
  then have np: "\<not> prefix sub (c # cs)" and r: "find_at cs sub (Suc i) = None"
    by (auto split: if_splits)
  show ?case
  proof (cases j)
    case 0
    then show ?thesis using np by simp
  next
    case (Suc k)
    then have "k \<le> length cs" using "2.prems" by simp
    from "2.IH" [OF np r this] show ?thesis using Suc by simp
  qed
qed

lemma str_find_Some:
  assumes "str_find s sub start = Some p"
  shows "start \<le> p" and "p \<le> length s" and "prefix sub (drop p s)"
    and "\<And>j. start \<le> j \<Longrightarrow> j < p \<Longrightarrow> \<not> prefix sub (drop j s)"
proof -
  from assms have le: "start \<le> length s" and f: "find_at (drop start s) sub start = Some p"
    by (auto simp: str_find_def split: if_splits)
  from find_at_Some [OF f] have a: "start \<le> p" "p - start \<le> length (drop start s)"
    "prefix sub (drop (p - start) (drop start s))"
    "\<forall>j < p - start. \<not> prefix sub (drop j (drop start s))" by auto
  show "start \<le> p" by (rule a(1))
  show "p \<le> length s" using a(1,2) le by simp
  show "prefix sub (drop p s)" using a(1,3) by simp
  show "\<not> prefix sub (drop j s)" if "start \<le> j" "j < p" for j
  proof -
    have "j - start < p - start" using that by simp
    with a(4) have "\<not> prefix sub (drop (j - start) (drop start s))" by blast
    then show ?thesis using that by simp
  qed
qed

lemma str_find_None:
  assumes "str_find s sub start = None" and "start \<le> j" and "j \<le> length s"
  shows "\<not> prefix sub (drop j s)"
proof -
  from assms have f: "find_at (drop start s) sub start = None"
    by (auto simp: str_find_def split: if_splits)
  have "j - start \<le> length (drop start s)" using assms(2,3) by simp
  from find_at_None [OF f this] show ?thesis using assms(2) by simp
qed

lemma prefix_drop_length: "prefix sub (drop p s) \<Longrightarrow> p \<le> length s \<Longrightarrow> p + length sub \<le> length s"
  by (metis add.commute le_add_diff_inverse2 length_drop nat_add_left_cancel_le prefix_length_le add_le_cancel_left)

section \<open>Step A: the search window\<close>

lemma position_order_sorted:
  "sorted_wrt (\<lambda>a b. position b \<le> position a) (position_order rlog)"
proof -
  have "sorted (map (\<lambda>e. - position e) (position_order rlog))"
    unfolding position_order_def by (rule sorted_sort_key)
  then show ?thesis by (simp add: sorted_map)
qed

lemma position_order_stable:
  "filter (\<lambda>e. position e = k) (position_order rlog) = filter (\<lambda>e. position e = k) rlog"
proof -
  have "filter (\<lambda>e. - position e = - k) (sort_key (\<lambda>e. - position e) rlog) =
        filter (\<lambda>e. - position e = - k) rlog"
    by (rule sort_key_stable)
  then show ?thesis by (simp add: position_order_def)
qed

lemma position_find_Some:
  assumes "position_find text entry = Some a"
  shows "position entry - 50 \<le> int a"
    and "prefix (placeholder entry) (drop a text)"
    and "0 \<le> position entry \<Longrightarrow> int a \<le> position entry + 50"
proof -
  let ?ph = "placeholder entry"
  let ?ss = "max 0 (position entry - 50)"
  let ?se = "min (int (length text)) (position entry + int (length ?ph) + 50)"
  let ?region = "py_slice text ?ss ?se"
  from assms obtain lp where lp: "str_find ?region ?ph 0 = Some lp" and a: "a = nat ?ss + lp"
    by (auto simp: position_find_def Let_def split: option.splits)
  show "position entry - 50 \<le> int a" using a by simp
  have i: "py_index (length text) ?ss = min (length text) (nat ?ss)"
    by (simp add: py_index_def)
  have reg: "?region = drop (min (length text) (nat ?ss)) (take (py_index (length text) ?se) text)"
    by (simp add: py_slice_def i)
  have lple: "lp \<le> length ?region" and pre: "prefix ?ph (drop lp ?region)"
    using str_find_Some [OF lp] by auto
  have len: "lp + length ?ph \<le> length ?region"
    by (rule prefix_drop_length [OF pre lple])
  show "prefix ?ph (drop a text)"
  proof (cases "nat ?ss \<le> length text")
    case True
    then have "drop lp ?region = take (py_index (length text) ?se - a) (drop a text)"
      using a by (simp add: reg drop_take add.commute)
    with pre have "prefix ?ph (take (py_index (length text) ?se - a) (drop a text))" by simp
    then show ?thesis using take_is_prefix prefix_order.trans by blast
  next
    case False
    then have "?region = []" by (subst reg) simp
    with len have "?ph = []" by simp
    then show ?thesis by simp
  qed
  show "int a \<le> position entry + 50" if nn: "0 \<le> position entry"
  proof -
    have se: "0 \<le> ?se" using nn by simp
    then have j: "py_index (length text) ?se = min (length text) (nat ?se)"
      by (simp add: py_index_def)
    have sen: "nat ?se \<le> length text" by simp
    have "length ?region = min (length text) (nat ?se) - min (length text) (nat ?ss)"
      by (subst reg) (simp add: j)
    with sen have "length ?region \<le> nat ?se - nat ?ss"
      by (cases "nat ?ss \<le> length text") (simp_all del: nat_le_iff)
    with len have bound: "lp + length ?ph \<le> nat ?se - nat ?ss" by simp
    define S where "S = nat ?ss"
    define E where "E = nat ?se"
    have E: "int E \<le> position entry + int (length ?ph) + 50"
      unfolding E_def using se by linarith
    have S: "int S \<le> position entry + 50" "a = S + lp"
      unfolding S_def using nn a by simp_all
    have b: "lp + length ?ph \<le> E - S" using bound by (simp add: S_def E_def)
    show ?thesis
    proof (cases "S \<le> E")
      case True
      then have "S + lp + length ?ph \<le> E" using b by linarith
      then have "int (S + lp) + int (length ?ph) \<le> int E" by linarith
      with E S(2) show ?thesis by linarith
    next
      case False
      then have "lp = 0" using b by linarith
      with S show ?thesis by simp
    qed
  qed
qed

lemma prefix_take_splice:
  "k \<le> a \<Longrightarrow> prefix (take k t) (splice t a n new)"
proof -
  assume "k \<le> a"
  then have "take k t = take k (take a t)" by (simp add: min_def)
  then have "prefix (take k t) (take a t)" by (metis take_is_prefix)
  then show ?thesis unfolding splice_def by (rule prefix_prefix)
qed

text \<open>
  Claim C3 (Step A order invariant). The claim holds of the order only: the records
  are processed in non-increasing order of recorded position. The code does not
  keep the rest of it. A record is matched at the first occurrence of its
  placeholder in a window that starts 50 characters before the recorded position,
  so a replacement can be made before the position of the record being processed
  and shift what lies after it. On the anonymizer's own, unedited output for
  \<open>Acme and Co\<close> the placeholder of the record at position 10 stands exactly at
  10, yet the record is matched at offset 0; the placeholder that is left moves to
  offset 7, and the two originals come back swapped, both counted as matched.
\<close>

theorem step_A_offset_failure:
  "map_option (\<lambda>r. (fst r, map (\<lambda>e. (placeholder e, original_text e, position e))
                               (m_replacement_log (snd r))))
     (execute_replacement ascii_upper id ''Acme and Co'' [ent ''Co'' ''c'' ''Acme''] [] []) =
     Some (''{C_1} and {C_1}'', [(''{C_1}'', ''Acme'', 0), (''{C_1}'', ''Co'', 10)]) \<and>
   position_order [rec_of ''{C_1}'' ''Acme'' 0, rec_of ''{C_1}'' ''Co'' 10] =
     [rec_of ''{C_1}'' ''Co'' 10, rec_of ''{C_1}'' ''Acme'' 0] \<and>
   prefix ''{C_1}'' (drop 10 ''{C_1} and {C_1}'') \<and>
   position_find ''{C_1} and {C_1}'' (rec_of ''{C_1}'' ''Co'' 10) = Some 0 \<and>
   \<not> position (rec_of ''{C_1}'' ''Co'' 10) \<le> int 0 \<and>
   position_step (''{C_1} and {C_1}'', 0, 0) (rec_of ''{C_1}'' ''Co'' 10) =
     (''Co and {C_1}'', 1, 0) \<and>
   position_find ''Co and {C_1}'' (rec_of ''{C_1}'' ''Acme'' 0) = Some 7 \<and>
   restore_by_position ''{C_1} and {C_1}''
     [rec_of ''{C_1}'' ''Acme'' 0, rec_of ''{C_1}'' ''Co'' 10] = (''Co and Acme'', 2, 0)"
  by code_simp

section \<open>The substitution loop for one literal\<close>

lemma length_splice:
  "pos + n \<le> length s \<Longrightarrow> length (splice s pos n new) = length s - n + length new"
  by (simp add: splice_def)

lemma str_find_bounds:
  assumes "str_find s sub start = Some p"
  shows "start \<le> p" and "p + length sub \<le> length s"
  using str_find_Some(1-3) [OF assms] prefix_drop_length by auto

function subst_loop ::
  "string \<Rightarrow> string \<Rightarrow> string \<Rightarrow> nat \<Rightarrow> replacement_record list \<Rightarrow>
   string \<times> replacement_record list" where
  "subst_loop entity_text ph anonymized_text search_start replacement_log =
     (if entity_text = [] then (anonymized_text, replacement_log)
      else case str_find anonymized_text entity_text search_start of
             None \<Rightarrow> (anonymized_text, replacement_log)
           | Some pos \<Rightarrow>
               subst_loop entity_text ph
                 (splice anonymized_text pos (length entity_text) ph)
                 (pos + length ph)
                 (replacement_log @ [make_record ph entity_text anonymized_text pos]))"
  by pat_completeness auto
termination
proof (relation "measure (\<lambda>(entity_text, ph, buf, start, rlog). length buf - start)", goal_cases)
  case 1
  then show ?case by simp
next
  case (2 entity_text ph buf start rlog pos)
  have b: "start \<le> pos" "pos + length entity_text \<le> length buf"
    using str_find_bounds [OF 2(2)] by auto
  have pos: "0 < length entity_text" using 2(1) by simp
  have "length (splice buf pos (length entity_text) ph) - (pos + length ph) =
          length buf - (length entity_text + pos)"
    using b by (simp add: length_splice)
  moreover have "length buf - (length entity_text + pos) < length buf - start"
    using b pos by linarith
  ultimately show ?case by simp
qed

declare subst_loop.simps [simp del]

lemma replace_loop_total:
  "entity_text \<noteq> [] \<Longrightarrow>
   replace_loop entity_text ph buf start rlog = Some (subst_loop entity_text ph buf start rlog)"
proof (induction entity_text ph buf start rlog rule: subst_loop.induct)
  case (1 entity_text ph buf start rlog)
  show ?case
  proof (cases "str_find buf entity_text start")
    case None
    then show ?thesis
      using "1.prems" by (subst replace_loop.simps, subst subst_loop.simps) simp
  next
    case (Some pos)
    from "1.IH" [OF "1.prems" Some "1.prems"] show ?thesis
      using "1.prems" Some by (subst replace_loop.simps, subst subst_loop.simps) simp
  qed
qed

lemma subst_loop_log:
  "subst_loop entity_text ph buf start rlog = (buf', rlog') \<Longrightarrow>
   \<exists>new. rlog' = rlog @ new \<and>
     sorted_wrt (\<lambda>a b. position a + int (length ph) \<le> position b) new \<and>
     (\<forall>r \<in> set new. int start \<le> position r \<and> placeholder r = ph \<and>
        original_text r = entity_text)"
proof (induction entity_text ph buf start rlog rule: subst_loop.induct)
  case (1 entity_text ph buf start rlog)
  show ?case
  proof (cases "entity_text = []")
    case True
    then have "rlog' = rlog" using "1.prems" by (simp add: subst_loop.simps)
    then show ?thesis by simp
  next
    case ne: False
    show ?thesis
    proof (cases "str_find buf entity_text start")
      case None
      then have "rlog' = rlog" using "1.prems" ne by (simp add: subst_loop.simps)
      then show ?thesis by simp
    next
      case (Some pos)
      let ?r = "make_record ph entity_text buf pos"
      have rec: "subst_loop entity_text ph (splice buf pos (length entity_text) ph)
                   (pos + length ph) (rlog @ [?r]) = (buf', rlog')"
        using "1.prems" ne Some by (subst (asm) subst_loop.simps) simp
      from "1.IH" [OF ne Some rec] obtain new where
        n: "rlog' = (rlog @ [?r]) @ new"
           "sorted_wrt (\<lambda>a b. position a + int (length ph) \<le> position b) new"
           "\<forall>r \<in> set new. int (pos + length ph) \<le> position r \<and> placeholder r = ph \<and>
              original_text r = entity_text"
        by auto
      have le: "start \<le> pos" using str_find_bounds(1) [OF Some] .
      have r: "position ?r = int pos" "placeholder ?r = ph" "original_text ?r = entity_text"
        by (simp_all add: make_record_def)
      have "rlog' = rlog @ (?r # new)" using n(1) by simp
      moreover have "sorted_wrt (\<lambda>a b. position a + int (length ph) \<le> position b) (?r # new)"
        using n(2,3) r(1) by auto
      moreover have "\<forall>x \<in> set (?r # new). int start \<le> position x \<and> placeholder x = ph \<and>
              original_text x = entity_text"
        using n(3) r le by auto
      ultimately show ?thesis by blast
    qed
  qed
qed

lemma str_find_here:
  "sub \<noteq> [] \<Longrightarrow> str_find (pre @ sub @ rest) sub (length pre) = Some (length pre)"
  by (cases sub) (simp_all add: str_find_def)

lemma str_find_end: "sub \<noteq> [] \<Longrightarrow> str_find pre sub (length pre) = None"
  by (simp add: str_find_def)

lemma subst_loop_adjacent:
  assumes "entity_text \<noteq> []"
  shows "\<exists>new. subst_loop entity_text ph (pre @ concat (replicate n entity_text)) (length pre) rlog =
           (pre @ concat (replicate n ph), rlog @ new) \<and> length new = n"
proof (induction n arbitrary: pre rlog)
  case 0
  show ?case using assms by (subst subst_loop.simps) (simp add: str_find_end)
next
  case (Suc n)
  let ?rest = "concat (replicate n entity_text)"
  let ?buf = "pre @ entity_text @ ?rest"
  let ?r = "make_record ph entity_text ?buf (length pre)"
  have f: "str_find ?buf entity_text (length pre) = Some (length pre)"
    by (rule str_find_here [OF assms])
  have sp: "splice ?buf (length pre) (length entity_text) ph = (pre @ ph) @ ?rest"
    by (simp add: splice_def)
  from Suc [of "pre @ ph" "rlog @ [?r]"] obtain new where
    n: "subst_loop entity_text ph ((pre @ ph) @ ?rest) (length (pre @ ph)) (rlog @ [?r]) =
          ((pre @ ph) @ concat (replicate n ph), (rlog @ [?r]) @ new)" "length new = n"
    by blast
  have "subst_loop entity_text ph ?buf (length pre) rlog =
          subst_loop entity_text ph ((pre @ ph) @ ?rest) (length (pre @ ph)) (rlog @ [?r])"
    using assms f sp by (subst subst_loop.simps) simp
  with n have "subst_loop entity_text ph ?buf (length pre) rlog =
          (pre @ concat (replicate (Suc n) ph), rlog @ (?r # new))" by simp
  moreover have "length (?r # new) = Suc n" using n(2) by simp
  ultimately show ?case by (metis append.assoc concat.simps(2) replicate_Suc)
qed

text \<open>
  Claim C6 (cursor advance), as amended. In the pass of one non-empty literal, the
  cursor after a replacement at \<open>pos\<close> is \<open>pos + len(placeholder)\<close>, the position
  right after the inserted placeholder. The pass ends, and the records it appends
  have positions that grow by at least the length of the placeholder from one to
  the next and are not below the starting cursor: the pass never matches inside or
  before a placeholder that it has inserted itself. Occurrences of the literal that
  follow one another directly are all replaced. The pass of the next literal
  starts again at cursor 0, so nothing protects the placeholders of earlier passes.
\<close>

theorem cursor_advance:
  assumes "entity_text \<noteq> []"
  shows "(str_find buf entity_text start = Some pos \<longrightarrow>
           replace_loop entity_text ph buf start rlog =
             replace_loop entity_text ph (splice buf pos (length entity_text) ph)
               (pos + length ph) (rlog @ [make_record ph entity_text buf pos])) \<and>
         (\<exists>buf' new. replace_loop entity_text ph buf start rlog = Some (buf', rlog @ new) \<and>
            sorted_wrt (\<lambda>a b. position a + int (length ph) \<le> position b) new \<and>
            (\<forall>r \<in> set new. int start \<le> position r)) \<and>
         (\<exists>new. replace_loop entity_text ph (pre @ concat (replicate n entity_text))
                   (length pre) rlog =
                 Some (pre @ concat (replicate n ph), rlog @ new) \<and> length new = n)"
proof (intro conjI impI)
  assume "str_find buf entity_text start = Some pos"
  then show "replace_loop entity_text ph buf start rlog =
             replace_loop entity_text ph (splice buf pos (length entity_text) ph)
               (pos + length ph) (rlog @ [make_record ph entity_text buf pos])"
    by (subst replace_loop.simps) simp
next
  obtain buf' rlog' where r: "subst_loop entity_text ph buf start rlog = (buf', rlog')"
    by (cases "subst_loop entity_text ph buf start rlog") auto
  from subst_loop_log [OF r] obtain new where
    "rlog' = rlog @ new"
    "sorted_wrt (\<lambda>a b. position a + int (length ph) \<le> position b) new"
    "\<forall>r \<in> set new. int start \<le> position r" by auto
  then show "\<exists>buf' new. replace_loop entity_text ph buf start rlog = Some (buf', rlog @ new) \<and>
            sorted_wrt (\<lambda>a b. position a + int (length ph) \<le> position b) new \<and>
            (\<forall>r \<in> set new. int start \<le> position r)"
    using replace_loop_total [OF assms, of ph buf start rlog] r by auto
next
  show "\<exists>new. replace_loop entity_text ph (pre @ concat (replicate n entity_text))
                   (length pre) rlog =
                 Some (pre @ concat (replicate n ph), rlog @ new) \<and> length new = n"
    using subst_loop_adjacent [OF assms, of ph pre n rlog] replace_loop_total [OF assms]
    by auto
qed

text \<open>
  The claim as stated fails: the pass of the shorter literal \<open>SO\<close> scans the text
  from the start and matches at position 4, inside the placeholder \<open>{PERSON_1}\<close>
  that the pass of \<open>John\<close> has inserted at position 0.
\<close>

theorem cursor_advance_counterexample:
  "map_option (\<lambda>r. (fst r, map (\<lambda>e. (placeholder e, position e)) (m_replacement_log (snd r))))
     (execute_replacement ascii_upper id ''John met SO''
        [ent ''John'' ''person'' [], ent ''SO'' ''org'' []] [] []) =
   Some (''{PER{ORG_1}N_1} met {ORG_1}'',
         [(''{PERSON_1}'', 0), (''{ORG_1}'', 4), (''{ORG_1}'', 20)])"
  by code_simp

theorem cursor_advance_witness:
  "''aa'' \<noteq> [] \<and>
   replace_loop ''aa'' ''{X_1}'' (''b'' @ concat (replicate 2 ''aa'')) (length ''b'') [] =
     Some (''b{X_1}{X_1}'',
       [make_record ''{X_1}'' ''aa'' ''baaaa'' 1, make_record ''{X_1}'' ''aa'' ''b{X_1}aa'' 6])"
proof -
  have ne: "''aa'' \<noteq> []" by simp
  have run: "replace_loop ''aa'' ''{X_1}'' (''b'' @ concat (replicate 2 ''aa'')) (length ''b'') [] =
     Some (''b{X_1}{X_1}'',
       [make_record ''{X_1}'' ''aa'' ''baaaa'' 1, make_record ''{X_1}'' ''aa'' ''b{X_1}aa'' 6])"
    by code_simp
  from cursor_advance [OF ne, of "''b''" 0 0 "''{X_1}''" "[]" "''b''" 2]
  have "\<exists>new. replace_loop ''aa'' ''{X_1}'' (''b'' @ concat (replicate 2 ''aa'')) (length ''b'') [] =
          Some (''b'' @ concat (replicate 2 ''{X_1}''), [] @ new) \<and> length new = 2"
    by blast
  with ne run show ?thesis by simp
qed

section \<open>Literals that do not meet a placeholder\<close>

lemma sublist_split_char:
  assumes "c \<notin> set l" and "sublist l (A @ c # B)"
  shows "sublist l A \<or> sublist l B"
proof -
  from assms(2) consider "sublist l A" | "sublist l (c # B)"
    | xs1 xs2 where "l = xs1 @ xs2" "suffix xs1 A" "prefix xs2 (c # B)"
    unfolding sublist_append by blast
  then show ?thesis
  proof cases
    case 1
    then show ?thesis by simp
  next
    case 2
    then have "prefix l (c # B) \<or> sublist l B" by (simp add: sublist_Cons_right)
    then show ?thesis
    proof
      assume "prefix l (c # B)"
      then have "l = []" using assms(1) by (cases l) auto
      then show ?thesis by simp
    qed simp
  next
    case 3
    from 3(3) have "xs2 = []" using assms(1) 3(1) by (cases xs2) auto
    then have "suffix l A" using 3(1,2) by simp
    then show ?thesis by (simp add: suffix_imp_sublist)
  qed
qed

lemma sublist_iff_prefix_drop:
  "sublist l s \<longleftrightarrow> (\<exists>j \<le> length s. prefix l (drop j s))"
proof
  assume "sublist l s"
  then obtain ps ss where "s = ps @ l @ ss" by (auto simp: sublist_def)
  then have "length ps \<le> length s \<and> prefix l (drop (length ps) s)" by simp
  then show "\<exists>j \<le> length s. prefix l (drop j s)" by blast
next
  assume "\<exists>j \<le> length s. prefix l (drop j s)"
  then obtain j where "prefix l (drop j s)" by blast
  then have "sublist l (drop j s)" by (rule prefix_imp_sublist)
  then show "sublist l s" using sublist_drop sublist_order.order.trans by blast
qed

lemma splice_keeps_absent:
  assumes "\<not> sublist lit buf" and "CHR ''{'' \<notin> set lit" and "CHR ''}'' \<notin> set lit"
    and "\<not> sublist lit (CHR ''{'' # X @ [CHR ''}''])"
  shows "\<not> sublist lit (splice buf pos n (CHR ''{'' # X @ [CHR ''}'']))"
proof
  assume s: "sublist lit (splice buf pos n (CHR ''{'' # X @ [CHR ''}'']))"
  then have "sublist lit (take pos buf @ CHR ''{'' # (X @ CHR ''}'' # drop (pos + n) buf))"
    by (simp add: splice_def)
  from sublist_split_char [OF assms(2) this]
  have "sublist lit (take pos buf) \<or> sublist lit (X @ CHR ''}'' # drop (pos + n) buf)" .
  then show False
  proof
    assume "sublist lit (take pos buf)"
    then have "sublist lit buf" using sublist_take sublist_order.order.trans by blast
    with assms(1) show False by simp
  next
    assume "sublist lit (X @ CHR ''}'' # drop (pos + n) buf)"
    from sublist_split_char [OF assms(3) this]
    have "sublist lit X \<or> sublist lit (drop (pos + n) buf)" .
    then show False
    proof
      assume "sublist lit X"
      then have "sublist lit (CHR ''{'' # X @ [CHR ''}''])"
        by (metis append_Cons append_Nil sublist_appendI sublist_order.order.trans sublist_order.order.refl)
      with assms(4) show False by simp
    next
      assume "sublist lit (drop (pos + n) buf)"
      then have "sublist lit buf" using sublist_drop sublist_order.order.trans by blast
      with assms(1) show False by simp
    qed
  qed
qed

lemma replace_loop_keeps_absent:
  assumes major: "replace_loop l p buf start rlog = Some y"
    and absent: "\<not> sublist lit buf"
    and lb: "CHR ''{'' \<notin> set lit" and rb: "CHR ''}'' \<notin> set lit"
    and form: "p = CHR ''{'' # X @ [CHR ''}'']" and np: "\<not> sublist lit p"
  shows "\<not> sublist lit (fst y)"
proof -
  have "p = CHR ''{'' # X @ [CHR ''}''] \<longrightarrow> \<not> sublist lit p \<longrightarrow> \<not> sublist lit buf \<longrightarrow>
        \<not> sublist lit (fst y)"
  proof (rule replace_loop.raw_induct
      [where P = "\<lambda>l p buf start rlog y. p = CHR ''{'' # X @ [CHR ''}''] \<longrightarrow> \<not> sublist lit p \<longrightarrow>
         \<not> sublist lit buf \<longrightarrow> \<not> sublist lit (fst y)", OF _ major])
    fix rl :: "string \<Rightarrow> string \<Rightarrow> string \<Rightarrow> nat \<Rightarrow> replacement_record list \<Rightarrow>
                (string \<times> replacement_record list) option"
    fix l p buf start rlog y
    assume IH: "\<And>l p buf start rlog y. rl l p buf start rlog = Some y \<Longrightarrow>
        p = CHR ''{'' # X @ [CHR ''}''] \<longrightarrow> \<not> sublist lit p \<longrightarrow>
         \<not> sublist lit buf \<longrightarrow> \<not> sublist lit (fst y)"
    assume body: "(case str_find buf l start of
        None \<Rightarrow> Some (buf, rlog)
      | Some pos \<Rightarrow> rl l p (splice buf pos (length l) p) (pos + length p)
            (rlog @ [make_record p l buf pos])) = Some y"
    show "p = CHR ''{'' # X @ [CHR ''}''] \<longrightarrow> \<not> sublist lit p \<longrightarrow>
         \<not> sublist lit buf \<longrightarrow> \<not> sublist lit (fst y)"
    proof (intro impI)
      assume f: "p = CHR ''{'' # X @ [CHR ''}'']" and n: "\<not> sublist lit p"
        and a: "\<not> sublist lit buf"
      show "\<not> sublist lit (fst y)"
      proof (cases "str_find buf l start")
        case None
        then have "y = (buf, rlog)" using body by simp
        then show ?thesis using a by simp
      next
        case (Some pos)
        then have r: "rl l p (splice buf pos (length l) p) (pos + length p)
                        (rlog @ [make_record p l buf pos]) = Some y"
          using body by simp
        have s: "\<not> sublist lit (splice buf pos (length l) p)"
          using splice_keeps_absent [OF a lb rb] n f by simp
        from IH [OF r] f n s show ?thesis by simp
      qed
    qed
  qed
  then show ?thesis using form np absent by simp
qed

lemma prefix_before_char:
  assumes "c \<notin> set l" and "prefix l (A @ c # B)"
  shows "prefix l A"
proof -
  from assms(2) have "prefix l A \<or> (\<exists>us. l = A @ us \<and> prefix us (c # B))"
    by (simp add: prefix_append)
  then show ?thesis
  proof
    assume "\<exists>us. l = A @ us \<and> prefix us (c # B)"
    then obtain us where us: "l = A @ us" "prefix us (c # B)" by blast
    then have "us = []" using assms(1) by (cases us) auto
    then show ?thesis using us(1) by simp
  qed simp
qed

lemma splice_no_early_match:
  assumes lb: "CHR ''{'' \<notin> set lit" and rb: "CHR ''}'' \<notin> set lit"
    and np: "\<not> sublist lit (CHR ''{'' # X @ [CHR ''}''])" and ne: "lit \<noteq> []"
    and early: "\<And>j. j < pos \<Longrightarrow> \<not> prefix lit (drop j buf)"
    and le: "pos \<le> length buf"
    and j: "j < pos + length (CHR ''{'' # X @ [CHR ''}''])"
  shows "\<not> prefix lit (drop j (splice buf pos n (CHR ''{'' # X @ [CHR ''}''])))"
proof
  let ?A = "take pos buf" and ?rest = "drop (pos + n) buf"
  assume p: "prefix lit (drop j (splice buf pos n (CHR ''{'' # X @ [CHR ''}''])))"
  have buf': "splice buf pos n (CHR ''{'' # X @ [CHR ''}'']) =
                ?A @ CHR ''{'' # (X @ CHR ''}'' # ?rest)"
    by (simp add: splice_def)
  have lenA: "length ?A = pos" using le by simp
  show False
  proof (cases "j \<le> pos")
    case True
    then have "drop j (?A @ CHR ''{'' # (X @ CHR ''}'' # ?rest)) =
                 drop j ?A @ CHR ''{'' # (X @ CHR ''}'' # ?rest)"
      using lenA by simp
    with p buf' have "prefix lit (drop j ?A @ CHR ''{'' # (X @ CHR ''}'' # ?rest))" by simp
    from prefix_before_char [OF lb this] have pa: "prefix lit (drop j ?A)" .
    then have "drop j ?A \<noteq> []" using ne by auto
    then have jl: "j < pos" by simp
    have "prefix (drop j ?A) (drop j buf)"
      by (simp add: drop_take take_is_prefix)
    with pa have "prefix lit (drop j buf)" by (rule prefix_order.trans)
    with early [OF jl] show False by simp
  next
    case False
    define k where "k = j - pos - 1"
    have jk: "j = pos + 1 + k" using False by (simp add: k_def)
    have kX: "k \<le> length X" using j jk by simp
    have "drop j (?A @ CHR ''{'' # (X @ CHR ''}'' # ?rest)) = drop k (X @ CHR ''}'' # ?rest)"
      using lenA jk by simp
    also have "\<dots> = drop k X @ CHR ''}'' # ?rest" using kX by simp
    finally have "prefix lit (drop k X @ CHR ''}'' # ?rest)" using p buf' by simp
    from prefix_before_char [OF rb this] have "prefix lit (drop k X)" .
    then have "sublist lit (drop k X)" by (rule prefix_imp_sublist)
    then have "sublist lit X" using sublist_drop sublist_order.order.trans by blast
    then have "sublist lit (CHR ''{'' # X @ [CHR ''}''])"
      by (metis append_Cons append_Nil sublist_appendI sublist_order.order.trans sublist_order.order.refl)
    with np show False by simp
  qed
qed

lemma subst_loop_removes:
  assumes "CHR ''{'' \<notin> set lit" and "CHR ''}'' \<notin> set lit"
    and "ph = CHR ''{'' # X @ [CHR ''}'']" and "\<not> sublist lit ph"
    and "\<And>j. j < start \<Longrightarrow> \<not> prefix lit (drop j buf)"
  shows "\<not> sublist lit (fst (subst_loop lit ph buf start rlog))"
  using assms
proof (induction lit ph buf start rlog rule: subst_loop.induct)
  case (1 lit ph buf start rlog)
  have ne: "lit \<noteq> []" using "1.prems"(4) by auto
  show ?case
  proof (cases "str_find buf lit start")
    case None
    have "\<not> sublist lit buf"
    proof
      assume "sublist lit buf"
      then obtain j where j: "j \<le> length buf" "prefix lit (drop j buf)"
        by (auto simp: sublist_iff_prefix_drop)
      show False
      proof (cases "j < start")
        case True
        with "1.prems"(5) j(2) show False by blast
      next
        case False
        then have "start \<le> j" by simp
        from str_find_None [OF None this j(1)] j(2) show False by simp
      qed
    qed
    then show ?thesis using None ne by (subst subst_loop.simps) simp
  next
    case (Some pos)
    have b: "start \<le> pos" "pos + length lit \<le> length buf"
      using str_find_bounds [OF Some] by auto
    have early: "\<not> prefix lit (drop j buf)" if "j < pos" for j
    proof (cases "j < start")
      case True
      with "1.prems"(5) show ?thesis by blast
    next
      case False
      then have "start \<le> j" by simp
      from str_find_Some(4) [OF Some this that] show ?thesis .
    qed
    have le: "pos \<le> length buf" using b(2) by simp
    have inv: "\<not> prefix lit (drop j (splice buf pos (length lit) ph))"
      if "j < pos + length ph" for j
      using splice_no_early_match [OF "1.prems"(1,2) _ ne early le, of X j "length lit"]
        "1.prems"(3,4) that by simp
    have "\<not> sublist lit (fst (subst_loop lit ph (splice buf pos (length lit) ph)
             (pos + length ph) (rlog @ [make_record ph lit buf pos])))"
      by (rule "1.IH" [OF ne Some "1.prems"(1-4) inv])
    then show ?thesis using Some ne by (subst subst_loop.simps) simp
  qed
qed

lemma set_dict_set: "set (dict_set k v d) \<subseteq> insert (k, v) (set d)"
  by (induction k v d rule: dict_set.induct) auto

lemma fold_set_values:
  "(l, q) \<in> set (foldl (\<lambda>d t. dict_set t p d) d ts) \<Longrightarrow> (l, q) \<in> set d \<or> q = p"
proof (induction ts arbitrary: d)
  case Nil
  then show ?case by simp
next
  case (Cons t ts)
  then have "(l, q) \<in> set (dict_set t p d) \<or> q = p" by simp
  then show ?case using set_dict_set [of t p d] by auto
qed

lemma make_placeholder_form:
  "make_placeholder ty n = CHR ''{'' # (ty @ ''_'' @ str_nat n) @ [CHR ''}'']"
  by (simp add: make_placeholder_def)

lemma literal_map_braced:
  "(l, q) \<in> set (literal_map upper iter gs) \<Longrightarrow> \<exists>X. q = CHR ''{'' # X @ [CHR ''}'']"
proof (induction gs rule: rev_induct)
  case Nil
  then show ?case by (simp add: literal_map_def assign_placeholders_def)
next
  case (snoc x gs)
  obtain k g where x: "x = (k, g)" by (cases x)
  from snoc.prems have "(l, q) \<in> set (literal_map upper iter gs) \<or>
      q = group_placeholder upper gs g"
    unfolding x literal_map_snoc by (rule fold_set_values)
  then show ?case
  proof
    assume "q = group_placeholder upper gs g"
    then show ?thesis
      unfolding group_placeholder_def make_placeholder_form by blast
  qed (rule snoc.IH)
qed

lemma dict_get_mem: "dict_get d k = Some v \<Longrightarrow> (k, v) \<in> set d"
  by (simp add: dict_get_def map_of_SomeD)

lemma replace_all_removes:
  assumes lb: "CHR ''{'' \<notin> set lit" and rb: "CHR ''}'' \<notin> set lit"
    and vals: "\<And>l p. (l, p) \<in> set d \<Longrightarrow>
                 (\<exists>X. p = CHR ''{'' # X @ [CHR ''}'']) \<and> \<not> sublist lit p"
  shows "replace_all d keys st = Some st' \<Longrightarrow> lit \<in> set keys \<or> \<not> sublist lit (fst st) \<Longrightarrow>
         \<not> sublist lit (fst st')"
proof (induction keys arbitrary: st)
  case Nil
  then show ?case by simp
next
  case (Cons l keys)
  from Cons.prems(1) obtain p st1 where
    p: "dict_get d l = Some p" and
    run: "replace_loop l p (fst st) 0 (snd st) = Some st1" and
    rest: "replace_all d keys st1 = Some st'"
    by (auto split: option.splits)
  from vals [OF dict_get_mem [OF p]] obtain X where
    form: "p = CHR ''{'' # X @ [CHR ''}'']" and np: "\<not> sublist lit p" by blast
  show ?case
  proof (cases "l = lit")
    case True
    have ne: "lit \<noteq> []" using np by auto
    have "st1 = subst_loop lit p (fst st) 0 (snd st)"
      using run True replace_loop_total [OF ne, of p "fst st" 0 "snd st"] by simp
    moreover have "\<not> sublist lit (fst (subst_loop lit p (fst st) 0 (snd st)))"
      by (rule subst_loop_removes [OF lb rb form np]) simp
    ultimately have "\<not> sublist lit (fst st1)" by simp
    then show ?thesis using Cons.IH [OF rest] by simp
  next
    case False
    show ?thesis
    proof (cases "sublist lit (fst st)")
      case True
      then have "lit \<in> set keys" using Cons.prems(2) False by auto
      then show ?thesis using Cons.IH [OF rest] by simp
    next
      case absent: False
      have "\<not> sublist lit (fst st1)"
        by (rule replace_loop_keeps_absent [OF run absent lb rb form np])
      then show ?thesis using Cons.IH [OF rest] by simp
    qed
  qed
qed

lemma match_token_nonempty: "match_token s = Some tok \<Longrightarrow> tok \<noteq> []"
  by (auto simp: match_token_def Let_def split: list.splits if_splits)

lemma finditer_sorted:
  "sorted_wrt (\<lambda>a b. fst a + length (snd a) \<le> fst b) (finditer i s) \<and>
   (\<forall>a \<in> set (finditer i s). i \<le> fst a \<and> snd a \<noteq> [])"
proof (induction i s rule: finditer.induct)
  case (1 i)
  then show ?case by simp
next
  case (2 i c cs)
  show ?case
  proof (cases "match_token (c # cs)")
    case None
    from 2(1) [OF None] have
      "sorted_wrt (\<lambda>a b. fst a + length (snd a) \<le> fst b) (finditer (Suc i) cs)"
      "\<forall>a \<in> set (finditer (Suc i) cs). Suc i \<le> fst a \<and> snd a \<noteq> []" by auto
    then show ?thesis using None by (auto dest: Suc_leD)
  next
    case (Some tok)
    from 2(2) [OF Some] have ih:
      "sorted_wrt (\<lambda>a b. fst a + length (snd a) \<le> fst b)
         (finditer (i + length tok) (drop (length tok - 1) cs))"
      "\<forall>a \<in> set (finditer (i + length tok) (drop (length tok - 1) cs)).
         i + length tok \<le> fst a \<and> snd a \<noteq> []" by auto
    have "tok \<noteq> []" using Some by (rule match_token_nonempty)
    then show ?thesis using Some ih by fastforce
  qed
qed

lemma sorted_wrt_mem:
  "sorted_wrt R xs \<Longrightarrow> a \<in> set xs \<Longrightarrow> b \<in> set xs \<Longrightarrow> a = b \<or> R a b \<or> R b a"
  by (induction xs) auto

lemma finditer_no_nesting:
  assumes "a \<in> set (finditer i s)" and "b \<in> set (finditer i s)"
    and "fst a \<le> fst b" and "fst b + length (snd b) \<le> fst a + length (snd a)"
  shows "a = b"
proof -
  have s: "sorted_wrt (\<lambda>a b. fst a + length (snd a) \<le> fst b) (finditer i s)"
    and ne: "snd a \<noteq> []" "snd b \<noteq> []"
    using finditer_sorted [of i s] assms(1,2) by auto
  from sorted_wrt_mem [OF s assms(1,2)] show ?thesis
  proof (elim disjE)
    assume "fst a + length (snd a) \<le> fst b"
    then have "length (snd b) = 0" using assms(4) by linarith
    then show ?thesis using ne by simp
  next
    assume "fst b + length (snd b) \<le> fst a"
    then have "length (snd b) = 0" using assms(3) by linarith
    then show ?thesis using ne by simp
  qed
qed

section \<open>What the substitution guarantees\<close>

lemma anonymized_of_Cons:
  "anonymized_of g0 ((l, p, g) # rest) = g0 @ p @ anonymized_of g rest"
  by (simp add: anonymized_of_def)

lemma source_of_Cons:
  "source_of g0 ((l, p, g) # rest) = g0 @ l @ source_of g rest"
  by (simp add: source_of_def)

lemma occurrence_in_gap:
  assumes lb: "CHR ''{'' \<notin> set lit" and rb: "CHR ''}'' \<notin> set lit"
  shows "anonymized_of g0 segs = A @ lit @ B \<Longrightarrow>
     \<forall>s \<in> set segs. (\<exists>X. fst (snd s) = CHR ''{'' # X @ [CHR ''}'']) \<and> \<not> sublist lit (fst (snd s)) \<Longrightarrow>
     \<exists>g0' segs'. A @ ph @ B = anonymized_of g0' segs' \<and>
        source_of g0' segs' = source_of g0 segs \<and>
        mset (seg_pairs segs') = add_mset (lit, ph) (mset (seg_pairs segs))"
proof (induction segs arbitrary: g0 A)
  case Nil
  then have g0: "g0 = A @ lit @ B" by (simp add: anonymized_of_def)
  show ?case
    apply (rule exI [of _ A])
    apply (rule exI [of _ "[(lit, ph, B)]"])
    apply (simp add: anonymized_of_def source_of_def seg_pairs_def g0)
    done
next
  case (Cons s rest)
  obtain l1 p1 g1 where s: "s = (l1, p1, g1)" by (cases s)
  let ?R = "anonymized_of g1 rest"
  from Cons.prems(2) s obtain X where p1: "p1 = CHR ''{'' # X @ [CHR ''}'']"
    and ns: "\<not> sublist lit p1" by auto
  have rest_ok: "\<forall>s \<in> set rest. (\<exists>X. fst (snd s) = CHR ''{'' # X @ [CHR ''}'']) \<and>
                   \<not> sublist lit (fst (snd s))"
    using Cons.prems(2) by simp
  have eq: "g0 @ (p1 @ ?R) = A @ (lit @ B)"
    using Cons.prems(1) s by (simp add: anonymized_of_Cons)
  have in_gap: "\<exists>g0' segs'. A @ ph @ B = anonymized_of g0' segs' \<and>
        source_of g0' segs' = source_of g0 (s # rest) \<and>
        mset (seg_pairs segs') = add_mset (lit, ph) (mset (seg_pairs (s # rest)))"
    if "g0 = A @ lit @ vs" and "B = vs @ p1 @ ?R" for vs
    apply (rule exI [of _ A])
    apply (rule exI [of _ "(lit, ph, vs) # s # rest"])
    using that s apply (simp add: anonymized_of_Cons source_of_Cons seg_pairs_def)
    done
  have later: "\<exists>g0' segs'. A @ ph @ B = anonymized_of g0' segs' \<and>
        source_of g0' segs' = source_of g0 (s # rest) \<and>
        mset (seg_pairs segs') = add_mset (lit, ph) (mset (seg_pairs (s # rest)))"
    if "A = g0 @ p1 @ ws" and "?R = ws @ lit @ B" for ws
  proof -
    from Cons.IH [OF that(2) rest_ok] obtain g1' rest' where
      a: "ws @ ph @ B = anonymized_of g1' rest'" and
      b: "source_of g1' rest' = source_of g1 rest" and
      c: "mset (seg_pairs rest') = add_mset (lit, ph) (mset (seg_pairs rest))" by blast
    show ?thesis
      apply (rule exI [of _ g0])
      apply (rule exI [of _ "(l1, p1, g1') # rest'"])
      using that(1) a [symmetric] b c s
      apply (simp add: anonymized_of_Cons source_of_Cons seg_pairs_def)
      done
  qed
  from eq obtain us where
    "(g0 = A @ us \<and> us @ (p1 @ ?R) = lit @ B) \<or> (g0 @ us = A \<and> p1 @ ?R = us @ (lit @ B))"
    unfolding append_eq_append_conv2 by blast
  then show ?case
  proof
    assume x1: "g0 = A @ us \<and> us @ (p1 @ ?R) = lit @ B"
    then obtain vs where
      "(us = lit @ vs \<and> vs @ (p1 @ ?R) = B) \<or> (us @ vs = lit \<and> p1 @ ?R = vs @ B)"
      unfolding append_eq_append_conv2 by blast
    then show ?thesis
    proof
      assume "us = lit @ vs \<and> vs @ (p1 @ ?R) = B"
      then show ?thesis using x1 by (intro in_gap [of vs]) auto
    next
      assume x1b: "us @ vs = lit \<and> p1 @ ?R = vs @ B"
      show ?thesis
      proof (cases "vs = []")
        case True
        then show ?thesis using x1 x1b by (intro in_gap [of "[]"]) auto
      next
        case False
        then obtain v vs' where vs: "vs = v # vs'" by (cases vs) auto
        have "v = CHR ''{''" using x1b vs p1 by simp
        then have "CHR ''{'' \<in> set lit" using x1b vs by auto
        then show ?thesis using lb by simp
      qed
    qed
  next
    assume x2: "g0 @ us = A \<and> p1 @ ?R = us @ (lit @ B)"
    then obtain ws where
      "(p1 = us @ ws \<and> ws @ ?R = lit @ B) \<or> (p1 @ ws = us \<and> ?R = ws @ (lit @ B))"
      unfolding append_eq_append_conv2 by blast
    then show ?thesis
    proof
      assume "p1 @ ws = us \<and> ?R = ws @ (lit @ B)"
      then show ?thesis using x2 by (intro later [of ws]) auto
    next
      assume x2a: "p1 = us @ ws \<and> ws @ ?R = lit @ B"
      show ?thesis
      proof (cases "ws = []")
        case True
        then show ?thesis using x2 x2a by (intro later [of "[]"]) auto
      next
        case False
        from x2a obtain ys where
          "(ws = lit @ ys \<and> ys @ ?R = B) \<or> (ws @ ys = lit \<and> ?R = ys @ B)"
          unfolding append_eq_append_conv2 by blast
        then show ?thesis
        proof
          assume "ws = lit @ ys \<and> ys @ ?R = B"
          then have "p1 = us @ lit @ ys" using x2a by simp
          then have "sublist lit p1" unfolding sublist_def by blast
          then show ?thesis using ns by simp
        next
          assume y: "ws @ ys = lit \<and> ?R = ys @ B"
          have "last ws = last p1" using x2a False by simp
          also have "\<dots> = CHR ''}''" using p1 by simp
          finally have "CHR ''}'' \<in> set ws" using False last_in_set by metis
          then have "CHR ''}'' \<in> set lit" using y by auto
          then show ?thesis using rb by simp
        qed
      qed
    qed
  qed
qed


lemma str_find_split:
  assumes "str_find buf lit start = Some pos"
  shows "buf = take pos buf @ lit @ drop (pos + length lit) buf"
proof -
  from str_find_Some(3) [OF assms] obtain zs where z: "drop pos buf = lit @ zs"
    by (auto simp: prefix_def)
  have "drop (pos + length lit) buf = drop (length lit) (drop pos buf)"
    by (simp add: add.commute)
  also have "\<dots> = zs" using z by simp
  finally have "drop (pos + length lit) buf = zs" .
  moreover have "buf = take pos buf @ drop pos buf" by simp
  ultimately show ?thesis using z by simp
qed

lemma segmented_step:
  assumes lb: "CHR ''{'' \<notin> set lit" and rb: "CHR ''}'' \<notin> set lit"
    and mem: "(lit, ph) \<in> set d"
    and vals: "\<forall>lp \<in> set d. (\<exists>X. snd lp = CHR ''{'' # X @ [CHR ''}'']) \<and> \<not> sublist lit (snd lp)"
    and found: "str_find buf lit start = Some pos"
    and seg: "segmented d src buf rlog"
  shows "segmented d src (splice buf pos (length lit) ph)
           (rlog @ [make_record ph lit buf pos])"
proof -
  from seg obtain g0 segs where
    b: "buf = anonymized_of g0 segs" and s: "src = source_of g0 segs" and
    p: "\<forall>s \<in> set segs. (fst s, fst (snd s)) \<in> set d" and
    m: "mset (seg_pairs segs) = mset (log_pairs rlog)"
    unfolding segmented_def by blast
  let ?A = "take pos buf" and ?B = "drop (pos + length lit) buf"
  have eq: "anonymized_of g0 segs = ?A @ lit @ ?B"
    using str_find_split [OF found] b by simp
  have ok: "\<forall>s \<in> set segs. (\<exists>X. fst (snd s) = CHR ''{'' # X @ [CHR ''}'']) \<and>
              \<not> sublist lit (fst (snd s))"
  proof
    fix t assume "t \<in> set segs"
    then have "(fst t, fst (snd t)) \<in> set d" using p by simp
    then show "(\<exists>X. fst (snd t) = CHR ''{'' # X @ [CHR ''}'']) \<and> \<not> sublist lit (fst (snd t))"
      using vals by fastforce
  qed
  from occurrence_in_gap [OF lb rb eq ok, of ph] obtain g0' segs' where
    a': "?A @ ph @ ?B = anonymized_of g0' segs'" and
    s': "source_of g0' segs' = source_of g0 segs" and
    m': "mset (seg_pairs segs') = add_mset (lit, ph) (mset (seg_pairs segs))" by blast
  have sp: "set (seg_pairs segs') = insert (lit, ph) (set (seg_pairs segs))"
    using m' by (metis set_mset_add_mset_insert set_mset_mset)
  have p': "\<forall>s \<in> set segs'. (fst s, fst (snd s)) \<in> set d"
  proof
    fix t assume "t \<in> set segs'"
    then have "(fst t, fst (snd t)) \<in> set (seg_pairs segs')" by (simp add: seg_pairs_def)
    then have "(fst t, fst (snd t)) = (lit, ph) \<or> (fst t, fst (snd t)) \<in> set (seg_pairs segs)"
      using sp by simp
    then show "(fst t, fst (snd t)) \<in> set d"
    proof
      assume "(fst t, fst (snd t)) = (lit, ph)"
      then show ?thesis using mem by simp
    next
      assume "(fst t, fst (snd t)) \<in> set (seg_pairs segs)"
      then obtain u where "u \<in> set segs" "(fst t, fst (snd t)) = (fst u, fst (snd u))"
        by (auto simp: seg_pairs_def)
      then show ?thesis using p by simp
    qed
  qed
  have l': "mset (seg_pairs segs') = mset (log_pairs (rlog @ [make_record ph lit buf pos]))"
    using m' m by (simp add: log_pairs_def make_record_def)
  show ?thesis
    unfolding segmented_def
    apply (rule exI [of _ g0'])
    apply (rule exI [of _ segs'])
    using a' s' s p' l' apply (simp add: splice_def)
    done
qed

lemma subst_loop_segmented:
  "CHR ''{'' \<notin> set lit \<Longrightarrow> CHR ''}'' \<notin> set lit \<Longrightarrow> (lit, ph) \<in> set d \<Longrightarrow>
   \<forall>lp \<in> set d. (\<exists>X. snd lp = CHR ''{'' # X @ [CHR ''}'']) \<and> \<not> sublist lit (snd lp) \<Longrightarrow>
   segmented d src buf rlog \<Longrightarrow>
   segmented d src (fst (subst_loop lit ph buf start rlog))
     (snd (subst_loop lit ph buf start rlog))"
proof (induction lit ph buf start rlog rule: subst_loop.induct)
  case (1 entity_text ph buf start rlog)
  show ?case
  proof (cases "entity_text = []")
    case True
    then show ?thesis using "1.prems"(5) by (simp add: subst_loop.simps)
  next
    case ne: False
    show ?thesis
    proof (cases "str_find buf entity_text start")
      case None
      then show ?thesis using "1.prems"(5) ne by (simp add: subst_loop.simps)
    next
      case (Some pos)
      have st: "segmented d src (splice buf pos (length entity_text) ph)
                  (rlog @ [make_record ph entity_text buf pos])"
        by (rule segmented_step [OF "1.prems"(1-4) Some "1.prems"(5)])
      have eq: "subst_loop entity_text ph buf start rlog =
                subst_loop entity_text ph (splice buf pos (length entity_text) ph)
                  (pos + length ph) (rlog @ [make_record ph entity_text buf pos])"
        using ne Some by (subst subst_loop.simps) simp
      show ?thesis
        unfolding eq by (rule "1.IH" [OF ne Some "1.prems"(1-4) st])
    qed
  qed
qed

lemma dict_keys_get: "l \<in> set (dict_keys d) \<Longrightarrow> \<exists>p. dict_get d l = Some p"
  by (cases "dict_get d l") (auto simp: dict_keys_def dict_get_def map_of_eq_None_iff)

lemma replace_all_returns:
  "\<forall>l \<in> set keys. l \<noteq> [] \<and> l \<in> set (dict_keys d) \<Longrightarrow> \<exists>st'. replace_all d keys st = Some st'"
proof (induction keys arbitrary: st)
  case Nil
  then show ?case by simp
next
  case (Cons l keys)
  from Cons.prems have ne: "l \<noteq> []" and k: "l \<in> set (dict_keys d)" by auto
  from dict_keys_get [OF k] obtain p where p: "dict_get d l = Some p" by blast
  have run: "replace_loop l p (fst st) 0 (snd st) = Some (subst_loop l p (fst st) 0 (snd st))"
    using ne by (rule replace_loop_total)
  from Cons.IH [of "subst_loop l p (fst st) 0 (snd st)"] Cons.prems
  obtain st' where "replace_all d keys (subst_loop l p (fst st) 0 (snd st)) = Some st'" by auto
  then show ?case using p run by simp
qed

lemma replace_all_segmented:
  "replace_all d keys st = Some st' \<Longrightarrow>
   \<forall>lit \<in> set keys. CHR ''{'' \<notin> set lit \<and> CHR ''}'' \<notin> set lit \<and>
      (\<forall>lp \<in> set d. \<not> sublist lit (snd lp)) \<Longrightarrow>
   \<forall>lp \<in> set d. \<exists>X. snd lp = CHR ''{'' # X @ [CHR ''}''] \<Longrightarrow>
   segmented d src (fst st) (snd st) \<Longrightarrow>
   segmented d src (fst st') (snd st')"
proof (induction keys arbitrary: st)
  case Nil
  then show ?case by simp
next
  case (Cons l keys)
  from Cons.prems(1) obtain p st1 where
    p: "dict_get d l = Some p" and
    run: "replace_loop l p (fst st) 0 (snd st) = Some st1" and
    rest: "replace_all d keys st1 = Some st'"
    by (auto split: option.splits)
  have mem: "(l, p) \<in> set d" using p by (rule dict_get_mem)
  have lb: "CHR ''{'' \<notin> set l" and rb: "CHR ''}'' \<notin> set l"
    and ns: "\<forall>lp \<in> set d. \<not> sublist l (snd lp)"
    using Cons.prems(2) by auto
  have "\<not> sublist l p" using ns mem by fastforce
  then have ne: "l \<noteq> []" by auto
  have st1: "st1 = subst_loop l p (fst st) 0 (snd st)"
    using run replace_loop_total [OF ne, of p "fst st" 0 "snd st"] by simp
  have vals: "\<forall>lp \<in> set d. (\<exists>X. snd lp = CHR ''{'' # X @ [CHR ''}'']) \<and> \<not> sublist l (snd lp)"
    using Cons.prems(3) ns by simp
  have "segmented d src (fst st1) (snd st1)"
    unfolding st1 by (rule subst_loop_segmented [OF lb rb mem vals Cons.prems(4)])
  moreover have "\<forall>lit \<in> set keys. CHR ''{'' \<notin> set lit \<and> CHR ''}'' \<notin> set lit \<and>
      (\<forall>lp \<in> set d. \<not> sublist lit (snd lp))"
    using Cons.prems(2) by simp
  ultimately show ?case using Cons.IH [OF rest _ Cons.prems(3)] by blast
qed


lemma segmented_start: "segmented d src src []"
  unfolding segmented_def
  apply (rule exI [of _ src])
  apply (rule exI [of _ "[]"])
  apply (simp add: anonymized_of_def source_of_def seg_pairs_def log_pairs_def)
  done

lemma execute_replacement_returns:
  assumes "[] \<notin> set (dict_keys (literal_map upper iter (build_groups entities aliases)))"
  shows "\<exists>out rlog.
      replace_all (literal_map upper iter (build_groups entities aliases))
        (sorted_texts (literal_map upper iter (build_groups entities aliases))) (text, []) =
        Some (out, rlog) \<and>
      execute_replacement upper iter text entities aliases source_filename =
        Some (out, \<lparr>m_metadata = \<lparr>source_file = source_filename,
                                  entity_count = length (build_groups entities aliases)\<rparr>,
                    m_mappings = placeholder_table upper iter (build_groups entities aliases),
                    m_replacement_log = rlog\<rparr>)"
proof -
  let ?d = "literal_map upper iter (build_groups entities aliases)"
  have "\<forall>l \<in> set (sorted_texts ?d). l \<noteq> [] \<and> l \<in> set (dict_keys ?d)"
    using assms by (auto simp: sorted_texts_def)
  from replace_all_returns [OF this, of "(text, [])"] obtain out rlog where
    r: "replace_all ?d (sorted_texts ?d) (text, []) = Some (out, rlog)" by force
  show ?thesis
    apply (rule exI [of _ out])
    apply (rule exI [of _ rlog])
    using r apply (simp add: execute_replacement_def Let_def)
    done
qed

text \<open>
  Claim C5 (non-overlap postcondition), as amended. When no literal of the
  literal-to-placeholder map is empty, \<open>execute_replacement\<close> returns. In the
  returned text, a literal of the map that contains no brace and is not a
  substring of a placeholder of the map does not occur. When every literal of the
  map is such, the run returns and the returned text is the input in which
  pairwise disjoint occurrences of literals have been replaced by their
  placeholders: input and output split into the same gaps, with a literal of the
  map between two gaps on the input side and its placeholder, whole, at the same
  place on the output side, one such occurrence for each record of the
  replacement log; so no inserted placeholder lies inside or across another one,
  and no literal of the map remains. Nothing is promised for a literal that occurs
  inside a placeholder id.
\<close>

theorem substitution_postcondition:
  "([] \<notin> set (dict_keys (literal_map upper iter (build_groups entities aliases))) \<longrightarrow>
      (\<exists>out' m'. execute_replacement upper iter text entities aliases source_filename =
         Some (out', m'))) \<and>
   (execute_replacement upper iter text entities aliases source_filename = Some (out, m) \<longrightarrow>
      (\<forall>lit \<in> set (dict_keys (literal_map upper iter (build_groups entities aliases))).
         CHR ''{'' \<notin> set lit \<and> CHR ''}'' \<notin> set lit \<and>
         (\<forall>lp \<in> set (literal_map upper iter (build_groups entities aliases)).
            \<not> sublist lit (snd lp))
         \<longrightarrow> \<not> sublist lit out)) \<and>
   ((\<forall>lit \<in> set (dict_keys (literal_map upper iter (build_groups entities aliases))).
       CHR ''{'' \<notin> set lit \<and> CHR ''}'' \<notin> set lit \<and>
       (\<forall>lp \<in> set (literal_map upper iter (build_groups entities aliases)).
          \<not> sublist lit (snd lp))) \<longrightarrow>
      (\<exists>out' m' gap0 segs.
         execute_replacement upper iter text entities aliases source_filename = Some (out', m') \<and>
         out' = anonymized_of gap0 segs \<and> text = source_of gap0 segs \<and>
         (\<forall>s \<in> set segs. (fst s, fst (snd s)) \<in>
            set (literal_map upper iter (build_groups entities aliases))) \<and>
         mset (seg_pairs segs) = mset (log_pairs (m_replacement_log m')) \<and>
         (\<forall>lit \<in> set (dict_keys (literal_map upper iter (build_groups entities aliases))).
            \<not> sublist lit out')))"
proof (intro conjI impI)
  let ?d = "literal_map upper iter (build_groups entities aliases)"
  assume "[] \<notin> set (dict_keys ?d)"
  from execute_replacement_returns [OF this, of "text" source_filename]
  show "\<exists>out' m'. execute_replacement upper iter text entities aliases source_filename =
         Some (out', m')" by blast
next
  let ?d = "literal_map upper iter (build_groups entities aliases)"
  assume run0: "execute_replacement upper iter text entities aliases source_filename = Some (out, m)"
  show "\<forall>lit \<in> set (dict_keys ?d).
         CHR ''{'' \<notin> set lit \<and> CHR ''}'' \<notin> set lit \<and> (\<forall>lp \<in> set ?d. \<not> sublist lit (snd lp))
         \<longrightarrow> \<not> sublist lit out"
  proof (intro ballI impI)
    fix lit
    assume key: "lit \<in> set (dict_keys ?d)"
      and h: "CHR ''{'' \<notin> set lit \<and> CHR ''}'' \<notin> set lit \<and>
              (\<forall>lp \<in> set ?d. \<not> sublist lit (snd lp))"
    from run0 obtain rlog where run: "replace_all ?d (sorted_texts ?d) (text, []) = Some (out, rlog)"
      by (auto simp: execute_replacement_def Let_def split: option.splits)
    have mem: "lit \<in> set (sorted_texts ?d)" using key by (simp add: sorted_texts_def)
    have vals: "(\<exists>X. p = CHR ''{'' # X @ [CHR ''}'']) \<and> \<not> sublist lit p"
      if "(l, p) \<in> set ?d" for l p
      using that literal_map_braced [OF that] h by fastforce
    have "\<not> sublist lit (fst (out, rlog))"
      using replace_all_removes [of lit ?d "sorted_texts ?d" "(text, [])" "(out, rlog)"]
        h vals run mem by blast
    then show "\<not> sublist lit out" by simp
  qed
next
  let ?d = "literal_map upper iter (build_groups entities aliases)"
  assume H: "\<forall>lit \<in> set (dict_keys ?d).
       CHR ''{'' \<notin> set lit \<and> CHR ''}'' \<notin> set lit \<and> (\<forall>lp \<in> set ?d. \<not> sublist lit (snd lp))"
  have ne: "[] \<notin> set (dict_keys ?d)"
  proof
    assume e: "[] \<in> set (dict_keys ?d)"
    then obtain lp where lp: "lp \<in> set ?d" by (auto simp: dict_keys_def)
    from H e have "\<not> sublist [] (snd lp)" using lp by blast
    then show False by simp
  qed
  from execute_replacement_returns [OF ne, of "text" source_filename] obtain out' rlog where
    r: "replace_all ?d (sorted_texts ?d) (text, []) = Some (out', rlog)" and
    e: "execute_replacement upper iter text entities aliases source_filename =
        Some (out', \<lparr>m_metadata = \<lparr>source_file = source_filename,
                                  entity_count = length (build_groups entities aliases)\<rparr>,
                    m_mappings = placeholder_table upper iter (build_groups entities aliases),
                    m_replacement_log = rlog\<rparr>)" by blast
  have keys: "\<forall>lit \<in> set (sorted_texts ?d). CHR ''{'' \<notin> set lit \<and> CHR ''}'' \<notin> set lit \<and>
      (\<forall>lp \<in> set ?d. \<not> sublist lit (snd lp))"
    using H by (simp add: sorted_texts_def)
  have braced: "\<forall>lp \<in> set ?d. \<exists>X. snd lp = CHR ''{'' # X @ [CHR ''}'']"
  proof
    fix lp assume "lp \<in> set ?d"
    then have "(fst lp, snd lp) \<in> set ?d" by simp
    then show "\<exists>X. snd lp = CHR ''{'' # X @ [CHR ''}'']" by (rule literal_map_braced)
  qed
  have "segmented ?d text (fst (text, [])) (snd (text, []))" by (simp add: segmented_start)
  from replace_all_segmented [OF r keys braced this]
  have "segmented ?d text out' rlog" by simp
  then obtain gap0 segs where
    s1: "out' = anonymized_of gap0 segs" and s2: "text = source_of gap0 segs" and
    s3: "\<forall>s \<in> set segs. (fst s, fst (snd s)) \<in> set ?d" and
    s4: "mset (seg_pairs segs) = mset (log_pairs rlog)"
    unfolding segmented_def by blast
  have s5: "\<forall>lit \<in> set (dict_keys ?d). \<not> sublist lit out'"
  proof
    fix lit assume key: "lit \<in> set (dict_keys ?d)"
    have h: "CHR ''{'' \<notin> set lit \<and> CHR ''}'' \<notin> set lit \<and>
              (\<forall>lp \<in> set ?d. \<not> sublist lit (snd lp))" using H key by blast
    have mem: "lit \<in> set (sorted_texts ?d)" using key by (simp add: sorted_texts_def)
    have vals: "(\<exists>X. p = CHR ''{'' # X @ [CHR ''}'']) \<and> \<not> sublist lit p"
      if "(l, p) \<in> set ?d" for l p
      using that literal_map_braced [OF that] h by fastforce
    have "\<not> sublist lit (fst (out', rlog))"
      using replace_all_removes [of lit ?d "sorted_texts ?d" "(text, [])" "(out', rlog)"]
        h vals r mem by blast
    then show "\<not> sublist lit out'" by simp
  qed
  show "\<exists>out' m' gap0 segs.
         execute_replacement upper iter text entities aliases source_filename = Some (out', m') \<and>
         out' = anonymized_of gap0 segs \<and> text = source_of gap0 segs \<and>
         (\<forall>s \<in> set segs. (fst s, fst (snd s)) \<in> set ?d) \<and>
         mset (seg_pairs segs) = mset (log_pairs (m_replacement_log m')) \<and>
         (\<forall>lit \<in> set (dict_keys ?d). \<not> sublist lit out')"
    apply (rule exI [of _ out'])
    apply (rule exI [of _ "\<lparr>m_metadata = \<lparr>source_file = source_filename,
                                  entity_count = length (build_groups entities aliases)\<rparr>,
                    m_mappings = placeholder_table upper iter (build_groups entities aliases),
                    m_replacement_log = rlog\<rparr>"])
    apply (rule exI [of _ gap0])
    apply (rule exI [of _ segs])
    using e s1 s2 s3 s4 s5 apply simp
    done
qed

text \<open>
  The claim as stated fails. The literal \<open>ID\<close> of type \<open>id\<close> is replaced by
  \<open>{ID_1}\<close>, in which it remains verbatim. With the literals \<open>Erik\<close> and \<open>ER\<close>,
  the placeholder of \<open>ER\<close> is inserted at position 2, inside the placeholder that
  was inserted for \<open>Erik\<close> at position 0. A literal with a brace can match across
  the end of an inserted placeholder without being a substring of one: with the
  literals \<open>abcd\<close> and \<open>} c\<close>, the closing brace of \<open>{X_1}\<close> is consumed.
\<close>

theorem substitution_postcondition_counterexample:
  "map_option fst (execute_replacement ascii_upper id ''Form ID'' [ent ''ID'' ''id'' []] [] []) =
     Some ''Form {ID_1}'' \<and>
   literal_map ascii_upper id (build_groups [ent ''ID'' ''id'' []] []) = [(''ID'', ''{ID_1}'')] \<and>
   sublist ''ID'' ''Form {ID_1}'' \<and>
   map_option (\<lambda>r. (fst r, map (\<lambda>e. (placeholder e, position e)) (m_replacement_log (snd r))))
     (execute_replacement ascii_upper id ''Erik and ER''
        [ent ''Erik'' ''person'' [], ent ''ER'' ''place'' []] [] []) =
   Some (''{P{PLACE_1}SON_1} and {PLACE_1}'',
         [(''{PERSON_1}'', 0), (''{PLACE_1}'', 2), (''{PLACE_1}'', 22)]) \<and>
   map_option fst (execute_replacement ascii_upper id ''abcd c''
      [ent ''abcd'' ''x'' [], ent ''} c'' ''y'' []] [] []) = Some ''{X_1{Y_1}'' \<and>
   literal_map ascii_upper id (build_groups [ent ''abcd'' ''x'' [], ent ''} c'' ''y'' []] []) =
     [(''abcd'', ''{X_1}''), (''} c'', ''{Y_1}'')] \<and>
   \<not> sublist ''} c'' ''{X_1}'' \<and> \<not> sublist ''} c'' ''{Y_1}''"
  by code_simp

theorem substitution_postcondition_witness:
  "literal_map ascii_upper id
     (build_groups [ent ''Bob'' ''person'' [], ent ''Al'' ''person'' []] []) =
     [(''Bob'', ''{PERSON_1}''), (''Al'', ''{PERSON_2}'')] \<and>
   \<not> sublist ''Bob'' ''{PERSON_1}'' \<and> \<not> sublist ''Bob'' ''{PERSON_2}'' \<and>
   \<not> sublist ''Al'' ''{PERSON_1}'' \<and> \<not> sublist ''Al'' ''{PERSON_2}'' \<and>
   map_option fst (execute_replacement ascii_upper id ''Bob met Al''
      [ent ''Bob'' ''person'' [], ent ''Al'' ''person'' []] [] []) =
     Some ''{PERSON_1} met {PERSON_2}'' \<and>
   anonymized_of [] [(''Bob'', ''{PERSON_1}'', '' met ''), (''Al'', ''{PERSON_2}'', [])] =
     ''{PERSON_1} met {PERSON_2}'' \<and>
   source_of [] [(''Bob'', ''{PERSON_1}'', '' met ''), (''Al'', ''{PERSON_2}'', [])] =
     ''Bob met Al'' \<and>
   \<not> sublist ''Bob'' ''{PERSON_1} met {PERSON_2}'' \<and>
   (\<exists>out' m' gap0 segs.
      execute_replacement ascii_upper id ''Bob met Al''
        [ent ''Bob'' ''person'' [], ent ''Al'' ''person'' []] [] [] = Some (out', m') \<and>
      out' = anonymized_of gap0 segs \<and> ''Bob met Al'' = source_of gap0 segs \<and>
      mset (seg_pairs segs) = mset (log_pairs (m_replacement_log m')))"
proof -
  let ?es = "[ent ''Bob'' ''person'' [], ent ''Al'' ''person'' []]"
  let ?d = "[(''Bob'', ''{PERSON_1}''), (''Al'', ''{PERSON_2}'')]"
  have d: "literal_map ascii_upper id (build_groups ?es []) = ?d" by code_simp
  have out: "map_option fst (execute_replacement ascii_upper id ''Bob met Al'' ?es [] []) =
     Some ''{PERSON_1} met {PERSON_2}''"
    by code_simp
  then obtain m where run: "execute_replacement ascii_upper id ''Bob met Al'' ?es [] [] =
     Some (''{PERSON_1} met {PERSON_2}'', m)"
    by (cases "execute_replacement ascii_upper id ''Bob met Al'' ?es [] []") auto
  have n: "\<not> sublist ''Bob'' ''{PERSON_1}''" "\<not> sublist ''Bob'' ''{PERSON_2}''"
    "\<not> sublist ''Al'' ''{PERSON_1}''" "\<not> sublist ''Al'' ''{PERSON_2}''"
    by code_simp+
  have h: "\<forall>lit \<in> set (dict_keys ?d).
       CHR ''{'' \<notin> set lit \<and> CHR ''}'' \<notin> set lit \<and> (\<forall>lp \<in> set ?d. \<not> sublist lit (snd lp))"
    using n by (simp add: dict_keys_def)
  have a: "anonymized_of [] [(''Bob'', ''{PERSON_1}'', '' met ''), (''Al'', ''{PERSON_2}'', [])] =
     ''{PERSON_1} met {PERSON_2}''" by (simp add: anonymized_of_def)
  have b: "source_of [] [(''Bob'', ''{PERSON_1}'', '' met ''), (''Al'', ''{PERSON_2}'', [])] =
     ''Bob met Al''" by (simp add: source_of_def)
  note inst = substitution_postcondition [of ascii_upper id ?es "[]" "''Bob met Al''" "[]"
      "''{PERSON_1} met {PERSON_2}''" m, unfolded d]
  have c: "\<not> sublist ''Bob'' ''{PERSON_1} met {PERSON_2}''"
    using inst run h by (simp add: dict_keys_def)
  have e: "\<exists>out' m' gap0 segs.
      execute_replacement ascii_upper id ''Bob met Al'' ?es [] [] = Some (out', m') \<and>
      out' = anonymized_of gap0 segs \<and> ''Bob met Al'' = source_of gap0 segs \<and>
      mset (seg_pairs segs) = mset (log_pairs (m_replacement_log m'))"
    using inst h by blast
  show ?thesis using d n out a b c e by simp
qed

section \<open>Determinism\<close>

lemma placeholder_table_snoc:
  "placeholder_table upper iter (gs @ [(k, g)]) =
     dict_set (group_placeholder upper gs g)
       \<lparr>p_value = Some k, p_type = g_type g, p_aliases = iter (removeAll k (g_texts g))\<rparr>
       (placeholder_table upper iter gs)"
proof -
  obtain tc pm t2p where st: "assign_placeholders upper iter gs = (tc, pm, t2p)"
    by (cases "assign_placeholders upper iter gs") auto
  have step: "assign_placeholders upper iter (gs @ [(k, g)]) = assign_step upper iter (tc, pm, t2p) (k, g)"
    using st by (simp add: assign_placeholders_def)
  have "dict_get tc (upper (g_type g)) =
          (if group_count upper (upper (g_type g)) gs = 0 then None
           else Some (group_count upper (upper (g_type g)) gs))"
    using assign_counters [of upper iter gs "upper (g_type g)"] st by simp
  then have n: "(case dict_get tc (upper (g_type g)) of None \<Rightarrow> 1 | Some c \<Rightarrow> c + 1) =
          Suc (group_count upper (upper (g_type g)) gs)"
    by (simp split: if_splits)
  show ?thesis
    unfolding placeholder_table_def step using st n
    by (simp add: assign_step_def Let_def group_placeholder_def)
qed

lemma table_ids_dict_set:
  "table_ids (dict_set k v d) = dict_set k (p_value v, p_type v) (table_ids d)"
  by (induction k v d rule: dict_set.induct) (simp_all add: table_ids_def)

lemma table_ids_independent:
  "table_ids (placeholder_table upper iter1 gs) = table_ids (placeholder_table upper iter2 gs)"
proof (induction gs rule: rev_induct)
  case Nil
  then show ?case by (simp add: placeholder_table_def assign_placeholders_def)
next
  case (snoc x gs)
  obtain k g where x: "x = (k, g)" by (cases x)
  show ?case unfolding x placeholder_table_snoc table_ids_dict_set using snoc by simp
qed

lemma texts_distinct_butlast: "texts_distinct (gs @ [x]) \<Longrightarrow> texts_distinct gs"
  by (simp add: texts_distinct_def)

lemma literal_map_independent:
  assumes "set_order iter1" and "set_order iter2"
  shows "texts_distinct gs \<Longrightarrow>
         dict_get (literal_map upper iter1 gs) t = dict_get (literal_map upper iter2 gs) t"
proof (induction gs rule: rev_induct)
  case Nil
  then show ?case by (simp add: literal_map_def assign_placeholders_def)
next
  case (snoc x gs)
  obtain k g where x: "x = (k, g)" by (cases x)
  have d: "distinct (g_texts g)" using snoc.prems x by (simp add: texts_distinct_def)
  have s: "set (iter1 (g_texts g)) = set (iter2 (g_texts g))"
    using assms d by (simp add: set_order_def)
  have ih: "dict_get (literal_map upper iter1 gs) t = dict_get (literal_map upper iter2 gs) t"
    using snoc.IH texts_distinct_butlast [OF snoc.prems] by simp
  show ?case unfolding x literal_map_snoc dict_get_fold_set using s ih by simp
qed

lemma sorted_texts_longest_first:
  "sorted_wrt (\<lambda>a b. length b \<le> length a) (sorted_texts d)"
proof -
  have "sorted (map (\<lambda>t. - int (length t)) (sorted_texts d))"
    unfolding sorted_texts_def by (rule sorted_sort_key)
  then show ?thesis by (simp add: sorted_map)
qed

lemma sorted_texts_stable:
  "filter (\<lambda>t. length t = n) (sorted_texts d) = filter (\<lambda>t. length t = n) (dict_keys d)"
proof -
  have "filter (\<lambda>t. - int (length t) = - int n) (sort_key (\<lambda>t. - int (length t)) (dict_keys d)) =
        filter (\<lambda>t. - int (length t) = - int n) (dict_keys d)"
    by (rule sort_key_stable)
  then show ?thesis by (simp add: sorted_texts_def)
qed

lemma assign_step_cong:
  assumes "iter1 (g_texts g) = iter2 (g_texts g)"
    and "iter1 (removeAll k (g_texts g)) = iter2 (removeAll k (g_texts g))"
  shows "assign_step upper iter1 st (k, g) = assign_step upper iter2 st (k, g)"
  using assms by (cases st) (simp add: assign_step_def Let_def)

lemma assign_placeholders_cong:
  "same_iteration iter1 iter2 gs \<Longrightarrow>
   assign_placeholders upper iter1 gs = assign_placeholders upper iter2 gs"
proof (induction gs rule: rev_induct)
  case Nil
  then show ?case by (simp add: assign_placeholders_def)
next
  case (snoc x gs)
  obtain k g where x: "x = (k, g)" by (cases x)
  have s: "same_iteration iter1 iter2 gs" using snoc.prems by (simp add: same_iteration_def)
  have i: "iter1 (g_texts g) = iter2 (g_texts g)"
    "iter1 (removeAll k (g_texts g)) = iter2 (removeAll k (g_texts g))"
    using snoc.prems x by (simp_all add: same_iteration_def)
  have "assign_placeholders upper iter1 (gs @ [x]) =
          assign_step upper iter1 (assign_placeholders upper iter1 gs) (k, g)"
    by (simp add: assign_placeholders_def x)
  also have "\<dots> = assign_step upper iter2 (assign_placeholders upper iter1 gs) (k, g)"
    by (rule assign_step_cong [OF i])
  also have "\<dots> = assign_step upper iter2 (assign_placeholders upper iter2 gs) (k, g)"
    using snoc.IH [OF s] by simp
  also have "\<dots> = assign_placeholders upper iter2 (gs @ [x])"
    by (simp add: assign_placeholders_def x)
  finally show ?case .
qed

lemma execute_replacement_cong:
  assumes "same_iteration iter1 iter2 (build_groups entities aliases)"
  shows "run_result (execute_replacement upper iter1 text entities aliases file1) =
         run_result (execute_replacement upper iter2 text entities aliases file2)"
proof -
  have "assign_placeholders upper iter1 (build_groups entities aliases) =
        assign_placeholders upper iter2 (build_groups entities aliases)"
    by (rule assign_placeholders_cong [OF assms])
  then have "placeholder_table upper iter1 (build_groups entities aliases) =
             placeholder_table upper iter2 (build_groups entities aliases)"
    and "literal_map upper iter1 (build_groups entities aliases) =
         literal_map upper iter2 (build_groups entities aliases)"
    by (simp_all add: placeholder_table_def literal_map_def)
  then show ?thesis
    by (simp add: run_result_def execute_replacement_def Let_def split: option.splits)
qed

lemma dict_keys_dict_set_list:
  "dict_keys (dict_set k v d) = (if k \<in> set (dict_keys d) then dict_keys d else dict_keys d @ [k])"
  by (induction k v d rule: dict_set.induct) (auto simp: dict_keys_def)

lemma dict_keys_fold_set:
  "distinct ts \<Longrightarrow>
   dict_keys (foldl (\<lambda>d t. dict_set t p d) d ts) =
     dict_keys d @ filter (\<lambda>t. t \<notin> set (dict_keys d)) ts"
proof (induction ts arbitrary: d)
  case Nil
  then show ?case by simp
next
  case (Cons t ts)
  have d: "distinct ts" and nt: "t \<notin> set ts" using Cons.prems by auto
  show ?case
  proof (cases "t \<in> set (dict_keys d)")
    case True
    then show ?thesis using Cons.IH [OF d, of "dict_set t p d"]
      by (simp add: dict_keys_dict_set_list)
  next
    case False
    have "filter (\<lambda>x. x \<noteq> t \<and> x \<notin> set (dict_keys d)) ts =
          filter (\<lambda>x. x \<notin> set (dict_keys d)) ts"
      using nt by (intro filter_cong) auto
    then show ?thesis using False Cons.IH [OF d, of "dict_set t p d"]
      by (simp add: dict_keys_dict_set_list)
  qed
qed

lemma literal_map_keys_snoc:
  assumes "set_order iter" and "distinct (g_texts g)"
  shows "dict_keys (literal_map upper iter (gs @ [(k, g)])) =
           dict_keys (literal_map upper iter gs) @
           filter (\<lambda>t. t \<notin> set (dict_keys (literal_map upper iter gs))) (iter (g_texts g))"
proof -
  have "distinct (iter (g_texts g))" using assms by (simp add: set_order_def)
  then show ?thesis unfolding literal_map_snoc by (rule dict_keys_fold_set)
qed

lemma dict_keys_fold_prefix:
  "prefix (dict_keys d) (dict_keys (foldl (\<lambda>d t. dict_set t p d) d ts))"
proof (induction ts arbitrary: d)
  case Nil
  then show ?case by simp
next
  case (Cons t ts)
  have "prefix (dict_keys d) (dict_keys (dict_set t p d))"
    by (simp add: dict_keys_dict_set_list)
  then show ?case using Cons [of "dict_set t p d"] by (auto intro: prefix_order.trans)
qed

lemma literal_map_keys_prefix:
  "prefix (dict_keys (literal_map upper iter gs)) (dict_keys (literal_map upper iter (gs @ hs)))"
proof (induction hs rule: rev_induct)
  case Nil
  then show ?case by simp
next
  case (snoc x hs)
  obtain k g where x: "x = (k, g)" by (cases x)
  have "prefix (dict_keys (literal_map upper iter (gs @ hs)))
          (dict_keys (literal_map upper iter ((gs @ hs) @ [(k, g)])))"
    unfolding literal_map_snoc by (rule dict_keys_fold_prefix)
  with snoc have "prefix (dict_keys (literal_map upper iter gs))
          (dict_keys (literal_map upper iter ((gs @ hs) @ [(k, g)])))"
    by (rule prefix_order.trans)
  then show ?case using x by simp
qed

lemma replace_loop_chunk:
  assumes "replace_loop l p buf start rlog = Some y"
  shows "\<exists>new. snd y = rlog @ new \<and> (\<forall>r \<in> set new. original_text r = l \<and> placeholder r = p)"
proof -
  have "\<exists>new. snd y = rlog @ new \<and> (\<forall>r \<in> set new. original_text r = l \<and> placeholder r = p)"
  proof (rule replace_loop.raw_induct
      [where P = "\<lambda>l p buf start rlog y. \<exists>new. snd y = rlog @ new \<and>
                    (\<forall>r \<in> set new. original_text r = l \<and> placeholder r = p)", OF _ assms])
    fix rl :: "string \<Rightarrow> string \<Rightarrow> string \<Rightarrow> nat \<Rightarrow> replacement_record list \<Rightarrow>
                (string \<times> replacement_record list) option"
    fix l p buf start rlog y
    assume IH: "\<And>l p buf start rlog y. rl l p buf start rlog = Some y \<Longrightarrow>
        \<exists>new. snd y = rlog @ new \<and> (\<forall>r \<in> set new. original_text r = l \<and> placeholder r = p)"
    assume body: "(case str_find buf l start of
        None \<Rightarrow> Some (buf, rlog)
      | Some pos \<Rightarrow> rl l p (splice buf pos (length l) p) (pos + length p)
            (rlog @ [make_record p l buf pos])) = Some y"
    show "\<exists>new. snd y = rlog @ new \<and> (\<forall>r \<in> set new. original_text r = l \<and> placeholder r = p)"
    proof (cases "str_find buf l start")
      case None
      then have "snd y = rlog @ []" using body by auto
      then show ?thesis by (intro exI [of _ "[]"]) simp
    next
      case (Some pos)
      then have r: "rl l p (splice buf pos (length l) p) (pos + length p)
                      (rlog @ [make_record p l buf pos]) = Some y"
        using body by simp
      from IH [OF r] obtain new where
        n: "snd y = (rlog @ [make_record p l buf pos]) @ new"
           "\<forall>r \<in> set new. original_text r = l \<and> placeholder r = p" by blast
      show ?thesis
        by (intro exI [of _ "make_record p l buf pos # new"]) (use n in \<open>simp add: make_record_def\<close>)
    qed
  qed
  then show ?thesis .
qed

lemma replace_all_chunks:
  "replace_all d keys st = Some st' \<Longrightarrow>
   \<exists>chunks. snd st' = snd st @ concat chunks \<and>
     list_all2 (\<lambda>lit ch. \<forall>r \<in> set ch. original_text r = lit \<and> dict_get d lit = Some (placeholder r))
       keys chunks"
proof (induction keys arbitrary: st)
  case Nil
  then show ?case by (intro exI [of _ "[]"]) simp
next
  case (Cons l keys)
  from Cons.prems obtain p st1 where
    p: "dict_get d l = Some p" and
    run: "replace_loop l p (fst st) 0 (snd st) = Some st1" and
    rest: "replace_all d keys st1 = Some st'"
    by (auto split: option.splits)
  from replace_loop_chunk [OF run] obtain new where
    n: "snd st1 = snd st @ new" "\<forall>r \<in> set new. original_text r = l \<and> placeholder r = p" by blast
  from Cons.IH [OF rest] obtain chunks where
    c: "snd st' = snd st1 @ concat chunks"
       "list_all2 (\<lambda>lit ch. \<forall>r \<in> set ch. original_text r = lit \<and> dict_get d lit = Some (placeholder r))
          keys chunks" by blast
  show ?case
    by (intro exI [of _ "new # chunks"]) (use n c p in simp)
qed

text \<open>
  Claim C2 (determinism), as amended. For the same entity and alias lists, the
  placeholder ids, with their values and types and in the same order, and the
  placeholder that the flat map gives to each literal are the same whatever the
  order in which the member sets are iterated. Two runs that iterate the member
  sets of the groups in the same order return the same anonymized text, the same
  placeholder table and the same replacement log. A run substitutes the literals
  in the order of \<open>sorted_texts\<close> of its flat map: longest first, literals of
  equal length in the insertion order of the map, and its log is made of one chunk
  of records per literal in that order. The insertion order of the map follows the
  iteration order of the member set of each group: the members of a group that are
  not yet keys are appended in the order of the iteration, and keys keep their
  place afterwards. So two runs that iterate a member set in different orders can
  return different logs and texts.
\<close>

theorem determinism:
  assumes "set_order iter1" and "set_order iter2"
  shows "table_ids (placeholder_table upper iter1 (build_groups entities aliases)) =
           table_ids (placeholder_table upper iter2 (build_groups entities aliases)) \<and>
         dict_get (literal_map upper iter1 (build_groups entities aliases)) =
           dict_get (literal_map upper iter2 (build_groups entities aliases)) \<and>
         (same_iteration iter1 iter2 (build_groups entities aliases) \<longrightarrow>
            run_result (execute_replacement upper iter1 text entities aliases file1) =
            run_result (execute_replacement upper iter2 text entities aliases file2)) \<and>
         (execute_replacement upper iter1 text entities aliases file1 = Some (out, m) \<longrightarrow>
            replace_all (literal_map upper iter1 (build_groups entities aliases))
              (sorted_texts (literal_map upper iter1 (build_groups entities aliases))) (text, []) =
              Some (out, m_replacement_log m) \<and>
            (\<exists>chunks. m_replacement_log m = concat chunks \<and>
               list_all2 (\<lambda>lit ch. \<forall>r \<in> set ch. original_text r = lit \<and>
                    dict_get (literal_map upper iter1 (build_groups entities aliases)) lit =
                      Some (placeholder r))
                 (sorted_texts (literal_map upper iter1 (build_groups entities aliases))) chunks)) \<and>
         sorted_wrt (\<lambda>a b. length b \<le> length a)
           (sorted_texts (literal_map upper iter1 (build_groups entities aliases))) \<and>
         (\<forall>n. filter (\<lambda>t. length t = n)
                 (sorted_texts (literal_map upper iter1 (build_groups entities aliases))) =
               filter (\<lambda>t. length t = n)
                 (dict_keys (literal_map upper iter1 (build_groups entities aliases)))) \<and>
         (build_groups entities aliases = pre @ (k, g) # post \<longrightarrow>
            dict_keys (literal_map upper iter1 (pre @ [(k, g)])) =
              dict_keys (literal_map upper iter1 pre) @
              filter (\<lambda>t. t \<notin> set (dict_keys (literal_map upper iter1 pre))) (iter1 (g_texts g)) \<and>
            prefix (dict_keys (literal_map upper iter1 (pre @ [(k, g)])))
              (dict_keys (literal_map upper iter1 (build_groups entities aliases))))"
proof (intro conjI allI impI)
  let ?gs = "build_groups entities aliases"
  let ?d = "literal_map upper iter1 ?gs"
  show "table_ids (placeholder_table upper iter1 ?gs) = table_ids (placeholder_table upper iter2 ?gs)"
    by (rule table_ids_independent)
  show "dict_get (literal_map upper iter1 ?gs) = dict_get (literal_map upper iter2 ?gs)"
    using literal_map_independent [OF assms texts_distinct_build_groups] by (intro ext)
  show "run_result (execute_replacement upper iter1 text entities aliases file1) =
        run_result (execute_replacement upper iter2 text entities aliases file2)"
    if "same_iteration iter1 iter2 ?gs"
    using that by (rule execute_replacement_cong)
  show "sorted_wrt (\<lambda>a b. length b \<le> length a) (sorted_texts ?d)"
    by (rule sorted_texts_longest_first)
  show "filter (\<lambda>t. length t = n) (sorted_texts ?d) = filter (\<lambda>t. length t = n) (dict_keys ?d)" for n
    by (rule sorted_texts_stable)
  {
    assume run: "execute_replacement upper iter1 text entities aliases file1 = Some (out, m)"
    then show r: "replace_all ?d (sorted_texts ?d) (text, []) = Some (out, m_replacement_log m)"
      by (auto simp: execute_replacement_def Let_def split: option.splits)
    from replace_all_chunks [OF r]
    show "\<exists>chunks. m_replacement_log m = concat chunks \<and>
               list_all2 (\<lambda>lit ch. \<forall>r \<in> set ch. original_text r = lit \<and>
                    dict_get ?d lit = Some (placeholder r)) (sorted_texts ?d) chunks"
      by simp
  }
  {
    assume split: "?gs = pre @ (k, g) # post"
    have "texts_distinct (pre @ (k, g) # post)"
      using texts_distinct_build_groups [of entities aliases] split by simp
    then have d: "distinct (g_texts g)" by (simp add: texts_distinct_def)
    show "dict_keys (literal_map upper iter1 (pre @ [(k, g)])) =
              dict_keys (literal_map upper iter1 pre) @
              filter (\<lambda>t. t \<notin> set (dict_keys (literal_map upper iter1 pre))) (iter1 (g_texts g))"
      by (rule literal_map_keys_snoc [OF assms(1) d])
    have "prefix (dict_keys (literal_map upper iter1 (pre @ [(k, g)])))
              (dict_keys (literal_map upper iter1 ((pre @ [(k, g)]) @ post)))"
      by (rule literal_map_keys_prefix)
    then show "prefix (dict_keys (literal_map upper iter1 (pre @ [(k, g)])))
              (dict_keys (literal_map upper iter1 ?gs))"
      using split by simp
  }
qed

text \<open>
  The claim as stated fails: the member set of a group is a Python \<open>set\<close>, and two
  runs may iterate it in different orders. With the members \<open>Bob\<close> and \<open>Rob\<close> of
  one group the replacement log comes out in two different orders, with different
  positions; with the overlapping members \<open>ab\<close> and \<open>ba\<close> the anonymized texts
  differ.
\<close>

theorem determinism_counterexample:
  "map_option (\<lambda>r. (fst r, map (\<lambda>e. (original_text e, position e)) (m_replacement_log (snd r))))
     (execute_replacement ascii_upper id ''Bob and Rob''
        [ent ''Bob'' ''person'' ''Robert'', ent ''Rob'' ''person'' ''Robert''] [] []) =
     Some (''{PERSON_1} and {PERSON_1}'', [(''Bob'', 0), (''Rob'', 15)]) \<and>
   map_option (\<lambda>r. (fst r, map (\<lambda>e. (original_text e, position e)) (m_replacement_log (snd r))))
     (execute_replacement ascii_upper rev ''Bob and Rob''
        [ent ''Bob'' ''person'' ''Robert'', ent ''Rob'' ''person'' ''Robert''] [] []) =
     Some (''{PERSON_1} and {PERSON_1}'', [(''Rob'', 8), (''Bob'', 0)]) \<and>
   map_option fst (execute_replacement ascii_upper id ''aba''
        [ent ''ab'' ''x'' ''k'', ent ''ba'' ''x'' ''k''] [] []) = Some ''{X_1}a'' \<and>
   map_option fst (execute_replacement ascii_upper rev ''aba''
        [ent ''ab'' ''x'' ''k'', ent ''ba'' ''x'' ''k''] [] []) = Some ''a{X_1}''"
  by code_simp

theorem determinism_witness:
  "set_order id \<and> set_order rev \<and>
   dict_get (literal_map ascii_upper id
      (build_groups [ent ''Bob'' ''person'' ''Robert'', ent ''Rob'' ''person'' ''Robert''] [])) ''Rob'' =
   dict_get (literal_map ascii_upper rev
      (build_groups [ent ''Bob'' ''person'' ''Robert'', ent ''Rob'' ''person'' ''Robert''] [])) ''Rob'' \<and>
   dict_keys (literal_map ascii_upper rev
      ([] @ [(''Robert'', \<lparr>g_type = ''person'', g_texts = [''Bob'', ''Robert'', ''Rob''],
                            g_aliases = []\<rparr>)])) =
     [''Rob'', ''Robert'', ''Bob''] \<and>
   same_iteration id rev (build_groups [ent ''Bob'' ''person'' [], ent ''Al'' ''person'' []] []) \<and>
   run_result (execute_replacement ascii_upper id ''Bob met Al''
      [ent ''Bob'' ''person'' [], ent ''Al'' ''person'' []] [] ''a.txt'') =
   run_result (execute_replacement ascii_upper rev ''Bob met Al''
      [ent ''Bob'' ''person'' [], ent ''Al'' ''person'' []] [] ''b.txt'') \<and>
   map_option fst (execute_replacement ascii_upper id ''Bob met Al''
      [ent ''Bob'' ''person'' [], ent ''Al'' ''person'' []] [] ''a.txt'') =
     Some ''{PERSON_1} met {PERSON_2}'' \<and>
   map_option (\<lambda>r. (fst r, map (\<lambda>e. (original_text e, position e)) (snd r)))
     (replace_all [(''Bob'', ''{PERSON_1}''), (''Al'', ''{PERSON_2}'')] [''Bob'', ''Al'']
        (''Bob met Al'', [])) =
     Some (''{PERSON_1} met {PERSON_2}'', [(''Bob'', 0), (''Al'', 15)])"
proof -
  let ?es = "[ent ''Bob'' ''person'' ''Robert'', ent ''Rob'' ''person'' ''Robert'']"
  let ?g = "\<lparr>g_type = ''person'', g_texts = [''Bob'', ''Robert'', ''Rob''], g_aliases = []\<rparr>"
  let ?es2 = "[ent ''Bob'' ''person'' [], ent ''Al'' ''person'' []]"
  have a: "set_order id" by (simp add: set_order_def)
  have b: "set_order rev" by (simp add: set_order_def)
  have gs: "build_groups ?es [] = [] @ (''Robert'', ?g) # []" by code_simp
  have e: "literal_map ascii_upper rev [] = []"
    by (simp add: literal_map_def assign_placeholders_def)
  have s: "same_iteration id rev (build_groups ?es2 [])" by code_simp
  have d2: "literal_map ascii_upper id (build_groups ?es2 []) =
              [(''Bob'', ''{PERSON_1}''), (''Al'', ''{PERSON_2}'')]" by code_simp
  have st: "sorted_texts [(''Bob'', ''{PERSON_1}''), (''Al'', ''{PERSON_2}'')] = [''Bob'', ''Al'']"
    by code_simp
  have out: "map_option fst (execute_replacement ascii_upper id ''Bob met Al'' ?es2 [] ''a.txt'') =
     Some ''{PERSON_1} met {PERSON_2}''" by code_simp
  have lg: "map_option (\<lambda>r. map (\<lambda>e. (original_text e, position e)) (m_replacement_log (snd r)))
      (execute_replacement ascii_upper id ''Bob met Al'' ?es2 [] ''a.txt'') =
     Some [(''Bob'', 0), (''Al'', 15)]" by code_simp
  from out obtain m where run: "execute_replacement ascii_upper id ''Bob met Al'' ?es2 [] ''a.txt'' =
     Some (''{PERSON_1} met {PERSON_2}'', m)"
    by (cases "execute_replacement ascii_upper id ''Bob met Al'' ?es2 [] ''a.txt''") auto
  have lgm: "map (\<lambda>e. (original_text e, position e)) (m_replacement_log m) =
     [(''Bob'', 0), (''Al'', 15)]" using lg run by simp
  have "dict_get (literal_map ascii_upper id (build_groups ?es [])) =
        dict_get (literal_map ascii_upper rev (build_groups ?es []))"
    using determinism [OF a b, of ascii_upper ?es "[]"] by blast
  moreover have "dict_keys (literal_map ascii_upper rev ([] @ [(''Robert'', ?g)])) =
     [''Rob'', ''Robert'', ''Bob'']"
    using determinism [OF b a, of ascii_upper ?es "[]" _ _ _ _ _ "[]" "''Robert''" ?g "[]"] gs e
    by (simp add: dict_keys_def)
  moreover have "run_result (execute_replacement ascii_upper id ''Bob met Al'' ?es2 [] ''a.txt'') =
     run_result (execute_replacement ascii_upper rev ''Bob met Al'' ?es2 [] ''b.txt'')"
    using determinism [OF a b, of ascii_upper ?es2 "[]" "''Bob met Al''" "''a.txt''" "''b.txt''"] s
    by blast
  moreover have "replace_all (literal_map ascii_upper id (build_groups ?es2 []))
        (sorted_texts (literal_map ascii_upper id (build_groups ?es2 []))) (''Bob met Al'', []) =
      Some (''{PERSON_1} met {PERSON_2}'', m_replacement_log m)"
    using determinism [OF a b, of ascii_upper ?es2 "[]" "''Bob met Al''" "''a.txt''" _
        "''{PERSON_1} met {PERSON_2}''" m] run
    by blast
  ultimately show ?thesis using a b s out lgm by (simp add: d2 st)
qed

section \<open>Placeholder tokens\<close>

lemma takeWhile_run: "\<forall>c \<in> set xs. P c \<Longrightarrow> \<not> P y \<Longrightarrow> takeWhile P (xs @ y # ys) = xs"
  by (induction xs) auto

lemma dropWhile_run: "\<forall>c \<in> set xs. P c \<Longrightarrow> \<not> P y \<Longrightarrow> dropWhile P (xs @ y # ys) = y # ys"
  by (induction xs) auto

lemma not_AZ_underscore: "\<not> is_AZ CHR ''_''" by (simp add: is_AZ_def)
lemma not_digit_close: "\<not> is_digit CHR ''}''" by (simp add: is_digit_def)

lemma match_token_shape:
  assumes "token_shape tok up ds"
  shows "match_token (tok @ rest) = Some tok"
proof -
  from assms have tok: "tok = CHR ''{'' # up @ CHR ''_'' # ds @ [CHR ''}'']"
    and up: "up \<noteq> []" "\<forall>c \<in> set up. is_AZ c" and ds: "ds \<noteq> []" "\<forall>c \<in> set ds. is_digit c"
    by (auto simp: token_shape_def)
  have t1: "takeWhile is_AZ (up @ CHR ''_'' # ds @ CHR ''}'' # rest) = up"
    by (rule takeWhile_run [OF up(2) not_AZ_underscore])
  have d1: "dropWhile is_AZ (up @ CHR ''_'' # ds @ CHR ''}'' # rest) = CHR ''_'' # ds @ CHR ''}'' # rest"
    by (rule dropWhile_run [OF up(2) not_AZ_underscore])
  have t2: "takeWhile is_digit (ds @ CHR ''}'' # rest) = ds"
    by (rule takeWhile_run [OF ds(2) not_digit_close])
  have d2: "dropWhile is_digit (ds @ CHR ''}'' # rest) = CHR ''}'' # rest"
    by (rule dropWhile_run [OF ds(2) not_digit_close])
  show ?thesis
    unfolding tok match_token_def using up(1) ds(1) by (simp add: t1 d1 t2 d2)
qed

lemma match_token_Some:
  assumes "match_token s = Some tok"
  shows "\<exists>up ds rest. token_shape tok up ds \<and> s = tok @ rest"
proof -
  from assms obtain r where s: "s = CHR ''{'' # r"
    by (cases s) (auto simp: match_token_def split: if_splits)
  let ?up = "takeWhile is_AZ r" and ?r1 = "dropWhile is_AZ r"
  from assms s have up: "?up \<noteq> []"
    by (auto simp: match_token_def Let_def split: if_splits)
  from assms s up obtain r2 where r1: "?r1 = CHR ''_'' # r2"
    by (cases ?r1) (auto simp: match_token_def Let_def split: if_splits)
  let ?ds = "takeWhile is_digit r2" and ?r3 = "dropWhile is_digit r2"
  from assms s up r1 have ds: "?ds \<noteq> []"
    by (auto simp: match_token_def Let_def split: if_splits)
  from assms s up r1 ds obtain r4 where r3: "?r3 = CHR ''}'' # r4"
    by (cases ?r3) (auto simp: match_token_def Let_def split: if_splits)
  from assms s up r1 ds r3 have tok: "tok = CHR ''{'' # ?up @ CHR ''_'' # ?ds @ [CHR ''}'']"
    by (auto simp: match_token_def Let_def split: if_splits)
  have "r = ?up @ ?r1" by simp
  also have "\<dots> = ?up @ CHR ''_'' # (?ds @ ?r3)" using r1 by simp
  finally have "s = tok @ r4" using s tok r3 by simp
  moreover have "token_shape tok ?up ?ds"
    using tok up ds by (auto simp: token_shape_def dest: set_takeWhileD)
  ultimately show ?thesis by blast
qed

section \<open>The round trip\<close>

text \<open>
  Claim C1 (round trip). The code does not restore every document. For the document
  \<open>Robert (Bob)\<close>, in which \<open>Bob\<close> is a mention with the canonical name \<open>Robert\<close>,
  both names get the placeholder \<open>{PERSON_1}\<close>; Step A matches the record of \<open>Bob\<close>
  at the first placeholder of its window, which is the one that stands for
  \<open>Robert\<close>. The restored text is \<open>Bob (Robert)\<close>, with every record counted as
  matched by position and nothing remaining, whatever the similarity measure.
\<close>

theorem round_trip_failure:
  "round_trip total_score ascii_upper id ''Robert (Bob)'' [ent ''Bob'' ''person'' ''Robert''] [] =
     Some (''Bob (Robert)'',
           \<lparr>position_matched = 2, context_matched = 0, fallback_count = 0,
            remaining_placeholders = 0, total_in_log = 2\<rparr>)"
proof -
  let ?log = "[make_record ''{PERSON_1}'' ''Robert'' ''Robert (Bob)'' 0,
               make_record ''{PERSON_1}'' ''Bob'' ''{PERSON_1} (Bob)'' 12]"
  let ?m = "\<lparr>m_metadata = \<lparr>source_file = [], entity_count = 1\<rparr>,
             m_mappings = [(''{PERSON_1}'',
                \<lparr>p_value = Some ''Robert'', p_type = ''person'', p_aliases = [''Bob'']\<rparr>)],
             m_replacement_log = ?log\<rparr>"
  have ex: "execute_replacement ascii_upper id ''Robert (Bob)'' [ent ''Bob'' ''person'' ''Robert''] [] [] =
              Some (''{PERSON_1} ({PERSON_1})'', ?m)"
    by code_simp
  have a: "restore_by_position ''{PERSON_1} ({PERSON_1})'' ?log = (''Bob (Robert)'', 2, 0)"
    by code_simp
  have f: "finditer 0 ''Bob (Robert)'' = []" by code_simp
  have b: "restore_by_context total_score ''Bob (Robert)'' ?log = (''Bob (Robert)'', 0)"
    unfolding restore_by_context_def Let_def f by simp
  have c: "restore_by_canonical ''Bob (Robert)'' [(''{PERSON_1}'',
                \<lparr>p_value = Some ''Robert'', p_type = ''person'', p_aliases = [''Bob'']\<rparr>)] =
             (''Bob (Robert)'', 0)"
    unfolding restore_by_canonical_def f by simp
  have "run_deanonymize total_score ''{PERSON_1} ({PERSON_1})'' ?m =
          (''Bob (Robert)'',
           \<lparr>position_matched = 2, context_matched = 0, fallback_count = 0,
            remaining_placeholders = 0, total_in_log = 2\<rparr>)"
    unfolding run_deanonymize_def Let_def mapping.simps a b prod.case c f by simp
  then show ?thesis unfolding round_trip_def ex by simp
qed

section \<open>Step B: the threshold over a run\<close>

lemma context_step_result:
  "context_step ts rlog (t, n) (p, tok) = (t', n') \<Longrightarrow>
   (t' = t \<and> n' = n) \<or> (\<exists>v. t' = splice t p (length tok) v \<and> n' = n + 1)"
  by (auto simp: context_step_def Let_def split: prod.splits option.splits if_splits)

lemma prefix_take_mono: "prefix xs ys \<Longrightarrow> length xs \<le> k \<Longrightarrow> prefix xs (take k ys)"
  by (auto simp: prefix_def)

lemma context_step_keeps_prefix:
  assumes "context_step ts rlog (t, n) (p, tok) = (t', n')" and "k \<le> p"
  shows "prefix (take k t) t'" and "n \<le> n'"
proof -
  from context_step_result [OF assms(1)]
  have "(t' = t \<and> n' = n) \<or> (\<exists>v. t' = splice t p (length tok) v \<and> n' = n + 1)" .
  then show "prefix (take k t) t'" using prefix_take_splice [OF assms(2)] take_is_prefix by auto
  from context_step_result [OF assms(1)] show "n \<le> n'" by auto
qed

lemma context_fold_keeps_prefix:
  "foldl (context_step ts rlog) (t, n) ms = (t', n') \<Longrightarrow> \<forall>m \<in> set ms. k \<le> fst m \<Longrightarrow>
   prefix (take k t) t' \<and> n \<le> n'"
proof (induction ms arbitrary: t n)
  case Nil
  then show ?case by (simp add: take_is_prefix)
next
  case (Cons m ms)
  obtain p tok where m: "m = (p, tok)" by (cases m)
  obtain t1 n1 where s: "context_step ts rlog (t, n) (p, tok) = (t1, n1)"
    by (cases "context_step ts rlog (t, n) (p, tok)") auto
  have kp: "k \<le> p" using Cons.prems(2) m by simp
  have a: "prefix (take k t) t1" "n \<le> n1" using context_step_keeps_prefix [OF s kp] by auto
  have "foldl (context_step ts rlog) (t1, n1) ms = (t', n')" using Cons.prems(1) m s by simp
  from Cons.IH [OF this] Cons.prems(2) have b: "prefix (take k t1) t'" "n1 \<le> n'" by auto
  have "prefix (take k t) (take k t1)" using a(1) by (rule prefix_take_mono) simp
  then have "prefix (take k t) t'" using b(1) by (rule prefix_order.trans)
  then show ?case using a(2) b(2) by simp
qed

lemma context_step_keeps_suffix:
  assumes "context_step ts rlog (L @ S, n) (p, tok) = (t', n')" and "p + length tok \<le> length L"
  shows "\<exists>L'. t' = L' @ S \<and> p \<le> length L'" and "n \<le> n'"
proof -
  from context_step_result [OF assms(1)]
  have c: "(t' = L @ S \<and> n' = n) \<or> (\<exists>v. t' = splice (L @ S) p (length tok) v \<and> n' = n + 1)" .
  then show "n \<le> n'" by auto
  from c show "\<exists>L'. t' = L' @ S \<and> p \<le> length L'"
  proof
    assume "t' = L @ S \<and> n' = n"
    then show ?thesis using assms(2) by (intro exI [of _ L]) simp
  next
    assume "\<exists>v. t' = splice (L @ S) p (length tok) v \<and> n' = n + 1"
    then obtain v where "t' = splice (L @ S) p (length tok) v" by blast
    then have "t' = (take p L @ v @ drop (p + length tok) L) @ S"
      using assms(2) by (simp add: splice_def)
    then show ?thesis using assms(2)
      by (intro exI [of _ "take p L @ v @ drop (p + length tok) L"]) simp
  qed
qed

lemma context_fold_keeps_suffix:
  "foldl (context_step ts rlog) (L @ S, n) (rev bs) = (t', n') \<Longrightarrow>
   sorted_wrt (\<lambda>a b. fst a + length (snd a) \<le> fst b) bs \<Longrightarrow>
   \<forall>m \<in> set bs. fst m + length (snd m) \<le> length L \<Longrightarrow>
   suffix S t' \<and> n \<le> n'"
proof (induction bs arbitrary: L n rule: rev_induct)
  case Nil
  then show ?case by (auto simp: suffix_def)
next
  case (snoc m bs)
  obtain p tok where m: "m = (p, tok)" by (cases m)
  obtain t1 n1 where s: "context_step ts rlog (L @ S, n) (p, tok) = (t1, n1)"
    by (cases "context_step ts rlog (L @ S, n) (p, tok)") auto
  have le: "p + length tok \<le> length L" using snoc.prems(3) m by simp
  from context_step_keeps_suffix [OF s le] obtain L1 where
    l1: "t1 = L1 @ S" "p \<le> length L1" and n1: "n \<le> n1" by blast
  have f: "foldl (context_step ts rlog) (L1 @ S, n1) (rev bs) = (t', n')"
    using snoc.prems(1) m s l1(1) by simp
  have srt: "sorted_wrt (\<lambda>a b. fst a + length (snd a) \<le> fst b) bs"
    and bnd: "\<forall>x \<in> set bs. fst x + length (snd x) \<le> p"
    using snoc.prems(2) m by (auto simp: sorted_wrt_append)
  have "\<forall>x \<in> set bs. fst x + length (snd x) \<le> length L1" using bnd l1(2) by auto
  from snoc.IH [OF f srt this] show ?case using n1 by simp
qed

lemma finditer_occurs:
  "(p, t) \<in> set (finditer i s) \<Longrightarrow> i \<le> p \<and> prefix t (drop (p - i) s)"
proof (induction i s rule: finditer.induct)
  case (1 i)
  then show ?case by simp
next
  case (2 i c cs)
  show ?case
  proof (cases "match_token (c # cs)")
    case None
    then have "(p, t) \<in> set (finditer (Suc i) cs)" using "2.prems" by simp
    from 2(1) [OF None this] have a: "Suc i \<le> p" "prefix t (drop (p - Suc i) cs)" by auto
    have "p - i = Suc (p - Suc i)" using a(1) by arith
    then show ?thesis using a by simp
  next
    case (Some tok)
    from match_token_Some [OF Some] obtain up ds rest where
      tk: "token_shape tok up ds" "c # cs = tok @ rest" by blast
    have ne: "tok \<noteq> []" using Some by (rule match_token_nonempty)
    have rest: "drop (length tok - Suc 0) cs = rest"
      using tk(2) ne by (cases tok) auto
    from "2.prems" Some have "(p, t) = (i, tok) \<or> (p, t) \<in> set (finditer (i + length tok) rest)"
      by (simp add: rest)
    then show ?thesis
    proof
      assume "(p, t) = (i, tok)"
      then show ?thesis using tk(2) by simp
    next
      assume mem: "(p, t) \<in> set (finditer (i + length tok) rest)"
      then have mem': "(p, t) \<in> set (finditer (i + length tok) (drop (length tok - 1) cs))"
        by (simp add: rest)
      from 2(2) [OF Some mem'] have a: "i + length tok \<le> p"
        "prefix t (drop (p - (i + length tok)) rest)" by (auto simp: rest)
      have "drop (p - i) (c # cs) = drop (p - i - length tok) rest"
        using a(1) tk(2) by simp
      then show ?thesis using a by (simp add: diff_diff_left)
    qed
  qed
qed


lemma context_step_local:
  assumes "\<forall>e \<in> set rlog. placeholder e = tok \<longrightarrow>
             entry_score ts (window_before t p) (window_after t p (length tok)) e \<le> 1 / 2"
  shows "context_step ts rlog (t, n) (p, tok) = (t, n)"
proof -
  obtain t' n' where r: "context_step ts rlog (t, n) (p, tok) = (t', n')"
    by (cases "context_step ts rlog (t, n) (p, tok)") auto
  have "\<not> (\<exists>e \<in> set rlog. placeholder e = tok \<and>
              1 / 2 < entry_score ts (window_before t p) (window_after t p (length tok)) e)"
    using assms by (auto simp: not_less)
  with context_step_cases [OF r] have "t' = t \<and> n' = n" by simp
  with r show ?thesis by simp
qed

lemma context_fold_local:
  "\<forall>m \<in> set ms. \<forall>e \<in> set rlog. placeholder e = snd m \<longrightarrow>
      entry_score ts (window_before t (fst m)) (window_after t (fst m) (length (snd m))) e
        \<le> 1 / 2 \<Longrightarrow>
   foldl (context_step ts rlog) (t, n) ms = (t, n)"
proof (induction ms)
  case Nil
  then show ?case by simp
next
  case (Cons m ms)
  obtain p tok where m: "m = (p, tok)" by (cases m)
  have "context_step ts rlog (t, n) (p, tok) = (t, n)"
    using Cons.prems m by (intro context_step_local) simp
  then show ?case using Cons m by simp
qed

lemma length_splice_ge: "p \<le> length t \<Longrightarrow> p \<le> length (splice t p k v)"
  by (simp add: splice_def)

text \<open>
  Claim C4 (Step B threshold and selection). Let the tokens found in the text be
  \<open>before @ (pos, tok) # after\<close>. \<open>restore_by_context\<close> handles them from the last
  to the first; when it reaches the token at \<open>pos\<close>, the current text \<open>cur\<close> still
  agrees with the input up to the end of that token, so the token is still at
  \<open>pos\<close>. The token is replaced exactly when some record of its id scores strictly
  above 1/2 for the contexts taken in \<open>cur\<close>; the text put in is then the
  \<open>original_text\<close> of a record whose score is maximal among the records of that id,
  and the count goes up by one. Otherwise text and count are unchanged: a maximal
  score of exactly 1/2 replaces nothing. What the iteration leaves from \<open>pos\<close> on
  is a suffix of the returned text, and the returned count is at least the count
  after the iteration. When, for every token found, no record of its id scores
  above 1/2 for the contexts in the input, the function returns its input with the
  count 0.
\<close>

theorem context_threshold:
  "(finditer 0 text = before @ (pos, tok) # after \<and>
    foldl (context_step total_score replacement_log) (text, 0) (rev after) = (cur, n) \<and>
    context_step total_score replacement_log (cur, n) (pos, tok) = (text', n') \<and>
    restore_by_context total_score text replacement_log = (final, k) \<longrightarrow>
      take (pos + length tok) cur = take (pos + length tok) text \<and>
      prefix tok (drop pos cur) \<and>
      (if \<exists>e \<in> set replacement_log. placeholder e = tok \<and>
              1 / 2 < entry_score total_score (window_before cur pos)
                        (window_after cur pos (length tok)) e
       then \<exists>e \<in> set replacement_log. placeholder e = tok \<and>
              1 / 2 < entry_score total_score (window_before cur pos)
                        (window_after cur pos (length tok)) e \<and>
              (\<forall>e' \<in> set replacement_log. placeholder e' = tok \<longrightarrow>
                 entry_score total_score (window_before cur pos)
                   (window_after cur pos (length tok)) e' \<le>
                 entry_score total_score (window_before cur pos)
                   (window_after cur pos (length tok)) e) \<and>
              text' = splice cur pos (length tok) (original_text e) \<and> n' = n + 1
       else text' = cur \<and> n' = n) \<and>
      suffix (drop pos text') final \<and> n' \<le> k) \<and>
   ((\<forall>m \<in> set (finditer 0 text). \<forall>e \<in> set replacement_log. placeholder e = snd m \<longrightarrow>
        entry_score total_score (window_before text (fst m))
          (window_after text (fst m) (length (snd m))) e \<le> 1 / 2) \<longrightarrow>
      restore_by_context total_score text replacement_log = (text, 0))"
proof (intro conjI impI)
  assume loc: "\<forall>m \<in> set (finditer 0 text). \<forall>e \<in> set replacement_log. placeholder e = snd m \<longrightarrow>
        entry_score total_score (window_before text (fst m))
          (window_after text (fst m) (length (snd m))) e \<le> 1 / 2"
  have "\<forall>m \<in> set (rev (finditer 0 text)). \<forall>e \<in> set replacement_log. placeholder e = snd m \<longrightarrow>
        entry_score total_score (window_before text (fst m))
          (window_after text (fst m) (length (snd m))) e \<le> 1 / 2"
    using loc by simp
  from context_fold_local [OF this]
  show "restore_by_context total_score text replacement_log = (text, 0)"
    by (simp add: restore_by_context_def Let_def)
next
  assume h: "finditer 0 text = before @ (pos, tok) # after \<and>
    foldl (context_step total_score replacement_log) (text, 0) (rev after) = (cur, n) \<and>
    context_step total_score replacement_log (cur, n) (pos, tok) = (text', n') \<and>
    restore_by_context total_score text replacement_log = (final, k)"
  let ?K = "pos + length tok"
  let ?R = "\<lambda>a b :: nat \<times> string. fst a + length (snd a) \<le> fst b"
  have fi: "finditer 0 text = before @ (pos, tok) # after"
    and fa: "foldl (context_step total_score replacement_log) (text, 0) (rev after) = (cur, n)"
    and st: "context_step total_score replacement_log (cur, n) (pos, tok) = (text', n')"
    and rb: "restore_by_context total_score text replacement_log = (final, k)"
    using h by auto
  have srt: "sorted_wrt ?R (before @ (pos, tok) # after)"
    using finditer_sorted [of 0 "text"] fi by simp
  have s_before: "sorted_wrt ?R before" and s_after: "\<forall>m \<in> set after. ?K \<le> fst m"
    and b_before: "\<forall>m \<in> set before. fst m + length (snd m) \<le> pos"
    using srt by (auto simp: sorted_wrt_append)
  have mem: "(pos, tok) \<in> set (finditer 0 text)" using fi by simp
  have ne: "tok \<noteq> []" using finditer_sorted [of 0 "text"] mem by fastforce
  have occ: "prefix tok (drop pos text)" using finditer_occurs [OF mem] by simp
  have len: "?K \<le> length text"
  proof -
    have "length tok \<le> length (drop pos text)" using occ by (rule prefix_length_le)
    then have "length tok \<le> length text - pos" by simp
    moreover have "0 < length tok" using ne by simp
    ultimately show ?thesis by arith
  qed
  have "\<forall>m \<in> set (rev after). ?K \<le> fst m" using s_after by simp
  from context_fold_keeps_prefix [OF fa this]
  have pk: "prefix (take ?K text) cur" by simp
  then obtain zs where cur: "cur = take ?K text @ zs" by (auto simp: prefix_def)
  have lt: "length (take ?K text) = ?K" using len by simp
  show tk: "take ?K cur = take ?K text"
    using len by (subst cur) simp
  have "take (length tok) (drop pos cur) = drop pos (take ?K cur)"
    by (simp add: drop_take)
  also have "\<dots> = drop pos (take ?K text)" by (simp only: tk)
  also have "\<dots> = take (length tok) (drop pos text)" by (simp add: drop_take)
  also have "\<dots> = tok" using occ by (auto simp: prefix_def)
  finally have "take (length tok) (drop pos cur) = tok" .
  then show "prefix tok (drop pos cur)" by (metis take_is_prefix)
  show "if \<exists>e \<in> set replacement_log. placeholder e = tok \<and>
              1 / 2 < entry_score total_score (window_before cur pos)
                        (window_after cur pos (length tok)) e
       then \<exists>e \<in> set replacement_log. placeholder e = tok \<and>
              1 / 2 < entry_score total_score (window_before cur pos)
                        (window_after cur pos (length tok)) e \<and>
              (\<forall>e' \<in> set replacement_log. placeholder e' = tok \<longrightarrow>
                 entry_score total_score (window_before cur pos)
                   (window_after cur pos (length tok)) e' \<le>
                 entry_score total_score (window_before cur pos)
                   (window_after cur pos (length tok)) e) \<and>
              text' = splice cur pos (length tok) (original_text e) \<and> n' = n + 1
       else text' = cur \<and> n' = n"
    using st by (rule context_step_cases)
  have lcur: "pos \<le> length cur" using cur lt by simp
  have lt': "pos \<le> length text'"
    using context_step_result [OF st] lcur length_splice_ge [OF lcur] by auto
  have "restore_by_context total_score text replacement_log =
          foldl (context_step total_score replacement_log) (text', n') (rev before)"
    using fi fa st by (simp add: restore_by_context_def Let_def)
  then have "foldl (context_step total_score replacement_log)
               (take pos text' @ drop pos text', n') (rev before) = (final, k)"
    using rb by simp
  moreover have "\<forall>m \<in> set before. fst m + length (snd m) \<le> length (take pos text')"
    using b_before lt' by simp
  ultimately have "suffix (drop pos text') final \<and> n' \<le> k"
    using s_before by (intro context_fold_keeps_suffix)
  then show "suffix (drop pos text') final" and "n' \<le> k" by auto
qed


theorem context_threshold_witness:
  "finditer 0 ''Dear {A_1}, from {B_2}'' = [] @ (5, ''{A_1}'') # [(17, ''{B_2}'')] \<and>
   foldl (context_step (\<lambda>cb sb ca sa. if cb = sb then 3 / 4 else 1 / 2)
            [\<lparr>placeholder = ''{A_1}'', original_text = ''Ann'', position = 5,
              context_before = ''Dear '', context_after = []\<rparr>,
             \<lparr>placeholder = ''{B_2}'', original_text = ''Bob'', position = 17,
              context_before = ''to '', context_after = []\<rparr>])
      (''Dear {A_1}, from {B_2}'', 0) (rev [(17, ''{B_2}'')]) = (''Dear {A_1}, from {B_2}'', 0) \<and>
   context_step (\<lambda>cb sb ca sa. if cb = sb then 3 / 4 else 1 / 2)
            [\<lparr>placeholder = ''{A_1}'', original_text = ''Ann'', position = 5,
              context_before = ''Dear '', context_after = []\<rparr>,
             \<lparr>placeholder = ''{B_2}'', original_text = ''Bob'', position = 17,
              context_before = ''to '', context_after = []\<rparr>]
      (''Dear {A_1}, from {B_2}'', 0) (5, ''{A_1}'') = (''Dear Ann, from {B_2}'', 1) \<and>
   restore_by_context (\<lambda>cb sb ca sa. if cb = sb then 3 / 4 else 1 / 2)
      ''Dear {A_1}, from {B_2}''
            [\<lparr>placeholder = ''{A_1}'', original_text = ''Ann'', position = 5,
              context_before = ''Dear '', context_after = []\<rparr>,
             \<lparr>placeholder = ''{B_2}'', original_text = ''Bob'', position = 17,
              context_before = ''to '', context_after = []\<rparr>]
      = (''Dear Ann, from {B_2}'', 1) \<and>
   suffix (drop 5 ''Dear Ann, from {B_2}'') ''Dear Ann, from {B_2}'' \<and>
   restore_by_context (\<lambda>cb sb ca sa. 1 / 2) ''Dear {A_1}, from {B_2}''
            [\<lparr>placeholder = ''{A_1}'', original_text = ''Ann'', position = 5,
              context_before = ''Dear '', context_after = []\<rparr>,
             \<lparr>placeholder = ''{B_2}'', original_text = ''Bob'', position = 17,
              context_before = ''to '', context_after = []\<rparr>]
      = (''Dear {A_1}, from {B_2}'', 0)"
proof -
  let ?ts = "\<lambda>(cb :: string) (sb :: string) (ca :: string) (sa :: string).
               if cb = sb then (3 / 4 :: rat) else 1 / 2"
  let ?half = "\<lambda>(cb :: string) (sb :: string) (ca :: string) (sa :: string). (1 / 2 :: rat)"
  let ?t = "''Dear {A_1}, from {B_2}''"
  let ?rlog = "[\<lparr>placeholder = ''{A_1}'', original_text = ''Ann'', position = 5,
              context_before = ''Dear '', context_after = []\<rparr>,
             \<lparr>placeholder = ''{B_2}'', original_text = ''Bob'', position = 17,
              context_before = ''to '', context_after = []\<rparr>]"
  have a: "finditer 0 ?t = [] @ (5, ''{A_1}'') # [(17, ''{B_2}'')]" by code_simp
  have b: "foldl (context_step ?ts ?rlog) (?t, 0) (rev [(17, ''{B_2}'')]) = (?t, 0)"
    by code_simp
  have c: "context_step ?ts ?rlog (?t, 0) (5, ''{A_1}'') = (''Dear Ann, from {B_2}'', 1)"
    by code_simp
  have d: "restore_by_context ?ts ?t ?rlog = (''Dear Ann, from {B_2}'', 1)"
    by code_simp
  have e: "\<forall>m \<in> set (finditer 0 ?t). \<forall>e \<in> set ?rlog. placeholder e = snd m \<longrightarrow>
        entry_score ?half (window_before ?t (fst m))
          (window_after ?t (fst m) (length (snd m))) e \<le> 1 / 2"
    by (simp add: entry_score_def)
  have "suffix (drop 5 ''Dear Ann, from {B_2}'') ''Dear Ann, from {B_2}''"
    using context_threshold [of ?t "[]" 5 "''{A_1}''" "[(17, ''{B_2}'')]" ?ts ?rlog ?t 0
        "''Dear Ann, from {B_2}''" 1 "''Dear Ann, from {B_2}''" 1] a b c d
    by blast
  moreover have "restore_by_context ?half ?t ?rlog = (?t, 0)"
    using context_threshold [of ?t "[]" 5 "''{A_1}''" "[(17, ''{B_2}'')]" ?half ?rlog ?t 0
        "''Dear Ann, from {B_2}''" 1 "''Dear Ann, from {B_2}''" 1] e
    by blast
  ultimately show ?thesis using a b c d by simp
qed

section \<open>Step C: tokens with an unknown id\<close>

lemma finditer_tokens_shift: "map snd (finditer i s) = map snd (finditer j s)"
proof (induction i s arbitrary: j rule: finditer.induct)
  case (1 i)
  then show ?case by simp
next
  case (2 i c cs)
  show ?case
  proof (cases "match_token (c # cs)")
    case None
    then show ?thesis using 2(1) [OF None, of "Suc j"] by simp
  next
    case (Some tok)
    then show ?thesis using 2(2) [OF Some, of "j + length tok"] by simp
  qed
qed

lemma match_token_not_brace: "c \<noteq> CHR ''{'' \<Longrightarrow> match_token (c # cs) = None"
  by (simp add: match_token_def)

lemma finditer_skip:
  "CHR ''{'' \<notin> set t \<Longrightarrow> map snd (finditer j (t @ r)) = map snd (finditer i r)"
proof (induction t arbitrary: j)
  case Nil
  then show ?case by (simp add: finditer_tokens_shift [of j r i])
next
  case (Cons a t)
  then have "a \<noteq> CHR ''{''" by auto
  then have "match_token (a # t @ r) = None" by (rule match_token_not_brace)
  then show ?case using Cons.IH [of "Suc j"] Cons.prems by simp
qed

lemma token_shape_tl: "token_shape tok up ds \<Longrightarrow> CHR ''{'' \<notin> set (tl tok)"
  by (auto simp: token_shape_def is_AZ_def is_digit_def)

lemma match_token_split:
  assumes "match_token (c # cs) = Some tok"
  shows "c # cs = tok @ drop (length tok - 1) cs \<and> tok \<noteq> [] \<and> CHR ''{'' \<notin> set (tl tok) \<and>
         cs = tl tok @ drop (length tok - 1) cs \<and>
         (\<forall>z. match_token (tok @ z) = Some tok)"
proof -
  from match_token_Some [OF assms] obtain up ds rest where
    sh: "token_shape tok up ds" and eq: "c # cs = tok @ rest" by blast
  have ne: "tok \<noteq> []" using assms by (rule match_token_nonempty)
  then obtain t where tok: "tok = c # t" using eq by (cases tok) auto
  have cs: "cs = t @ rest" using eq tok by simp
  have rest: "drop (length tok - 1) cs = rest" using cs tok by simp
  show ?thesis
    using eq ne token_shape_tl [OF sh] cs tok rest match_token_shape [OF sh] by simp
qed

lemma finditer_cons_tokens:
  "subseq (map snd (finditer j w)) (map snd (finditer i (c # w)))"
proof (cases "match_token (c # w)")
  case None
  then show ?thesis by (simp add: finditer_tokens_shift [of "Suc i" w j])
next
  case (Some tok)
  from match_token_split [OF Some] have
    w: "w = tl tok @ drop (length tok - 1) w" and nb: "CHR ''{'' \<notin> set (tl tok)" by auto
  have "map snd (finditer j w) = map snd (finditer j (tl tok @ drop (length tok - 1) w))"
    using w by simp
  also have "\<dots> = map snd (finditer (i + length tok) (drop (length tok - 1) w))"
    using nb by (rule finditer_skip)
  finally have "map snd (finditer j w) =
      map snd (finditer (i + length tok) (drop (length tok - 1) w))" .
  moreover have "map snd (finditer i (c # w)) =
      tok # map snd (finditer (i + length tok) (drop (length tok - 1) w))"
    using Some by simp
  moreover have "subseq (map snd (finditer (i + length tok) (drop (length tok - 1) w)))
      (tok # map snd (finditer (i + length tok) (drop (length tok - 1) w)))"
    by (rule list_emb_Cons) (rule subseq_order.refl)
  ultimately show ?thesis by (simp only:)
qed

lemma finditer_append_tokens:
  "subseq (map snd (finditer j w)) (map snd (finditer i (x @ w)))"
proof (induction x arbitrary: i)
  case Nil
  then show ?case by (simp add: finditer_tokens_shift [of j w i])
next
  case (Cons a x)
  have "subseq (map snd (finditer j w)) (map snd (finditer (Suc i) (x @ w)))" by (rule Cons.IH)
  moreover have "subseq (map snd (finditer (Suc i) (x @ w))) (map snd (finditer i (a # x @ w)))"
    by (rule finditer_cons_tokens)
  ultimately show ?case by (simp add: subseq_order.trans)
qed


lemma finditer_token:
  assumes "match_token (tok @ z) = Some tok" and "tok \<noteq> []"
  shows "finditer j (tok @ z) = (j, tok) # finditer (j + length tok) z"
proof -
  obtain c t where tok: "tok = c # t" using assms(2) by (cases tok) auto
  have "match_token (c # t @ z) = Some tok" using assms(1) tok by simp
  then show ?thesis using tok by simp
qed

lemma splice_at_end: "splice (pre @ tok @ r) (length pre) (length tok) v = pre @ v @ r"
  by (simp add: splice_def)

lemma canonical_fold:
  "i = length pre \<Longrightarrow>
   foldl (canonical_step mp) (pre @ s, n) (rev (finditer i s)) =
     (pre @ canonical_spec mp s,
      n + length (filter (\<lambda>m. dict_get mp (snd m) \<noteq> None) (finditer i s)))"
proof (induction i s arbitrary: pre n rule: finditer.induct)
  case (1 i)
  then show ?case by simp
next
  case (2 i c cs)
  show ?case
  proof (cases "match_token (c # cs)")
    case None
    have "Suc i = length (pre @ [c])" using "2.prems" by simp
    from 2(1) [OF None this, of n] show ?thesis using None by simp
  next
    case (Some tok)
    let ?rest = "drop (length tok - 1) cs"
    let ?k = "length (filter (\<lambda>m. dict_get mp (snd m) \<noteq> None) (finditer (i + length tok) ?rest))"
    from match_token_split [OF Some] have eq: "c # cs = tok @ ?rest" by simp
    have "i + length tok = length (pre @ tok)" using "2.prems" by simp
    from 2(2) [OF Some this, of n]
    have f: "foldl (canonical_step mp) (pre @ tok @ ?rest, n) (rev (finditer (i + length tok) ?rest)) =
             (pre @ tok @ canonical_spec mp ?rest, n + ?k)" by simp
    have fi: "finditer i (c # cs) = (i, tok) # finditer (i + length tok) ?rest"
      using Some by simp
    have e1: "pre @ c # cs = pre @ tok @ ?rest" using eq by simp
    have "foldl (canonical_step mp) (pre @ c # cs, n) (rev (finditer i (c # cs))) =
          foldl (canonical_step mp) (pre @ tok @ ?rest, n)
            (rev (finditer (i + length tok) ?rest) @ [(i, tok)])"
      by (simp only: fi e1 rev.simps)
    also have "\<dots> = canonical_step mp (pre @ tok @ canonical_spec mp ?rest, n + ?k) (i, tok)"
      by (simp only: foldl_append f foldl.simps)
    also have "\<dots> = (pre @ canonical_spec mp (c # cs),
        n + length (filter (\<lambda>m. dict_get mp (snd m) \<noteq> None) (finditer i (c # cs))))"
    proof (cases "dict_get mp tok")
      case None
      then show ?thesis unfolding fi using Some by (simp add: canonical_step_def)
    next
      case (Some info)
      show ?thesis
        unfolding fi using Some \<open>match_token (c # cs) = Some tok\<close> "2.prems"
        by (simp add: canonical_step_def splice_at_end split: option.splits)
    qed
    finally show ?thesis .
  qed
qed

lemma canonical_spec_tokens:
  "subseq (map snd (filter (\<lambda>m. dict_get mp (snd m) = None) (finditer i s)))
          (map snd (finditer j (canonical_spec mp s)))"
proof (induction i s arbitrary: j rule: finditer.induct)
  case (1 i)
  then show ?case by simp
next
  case (2 i c cs)
  let ?U = "\<lambda>ms :: (nat \<times> string) list. map snd (filter (\<lambda>m. dict_get mp (snd m) = None) ms)"
  show ?case
  proof (cases "match_token (c # cs)")
    case None
    have "subseq (?U (finditer (Suc i) cs)) (map snd (finditer (Suc j) (canonical_spec mp cs)))"
      by (rule 2(1) [OF None])
    moreover have "subseq (map snd (finditer (Suc j) (canonical_spec mp cs)))
                     (map snd (finditer j (c # canonical_spec mp cs)))"
      by (rule finditer_cons_tokens)
    ultimately have "subseq (?U (finditer (Suc i) cs))
                       (map snd (finditer j (c # canonical_spec mp cs)))"
      by (rule subseq_order.trans)
    then show ?thesis using None by simp
  next
    case (Some tok)
    let ?rest = "drop (length tok - 1) cs"
    from match_token_split [OF Some] have ne: "tok \<noteq> []"
      and mt: "\<forall>z. match_token (tok @ z) = Some tok" by auto
    have fi: "finditer i (c # cs) = (i, tok) # finditer (i + length tok) ?rest"
      using Some by simp
    show ?thesis
    proof (cases "dict_get mp tok")
      case None
      have cs: "canonical_spec mp (c # cs) = tok @ canonical_spec mp ?rest"
        using Some None by simp
      have "finditer j (tok @ canonical_spec mp ?rest) =
              (j, tok) # finditer (j + length tok) (canonical_spec mp ?rest)"
        using mt ne by (intro finditer_token) auto
      moreover have "subseq (?U (finditer (i + length tok) ?rest))
                       (map snd (finditer (j + length tok) (canonical_spec mp ?rest)))"
        by (rule 2(2) [OF Some])
      ultimately show ?thesis unfolding fi cs using None by simp
    next
      case (Some info)
      obtain v where cs: "canonical_spec mp (c # cs) = v @ canonical_spec mp ?rest"
        using Some \<open>match_token (c # cs) = Some tok\<close> by simp
      have "subseq (?U (finditer (i + length tok) ?rest))
                       (map snd (finditer j (canonical_spec mp ?rest)))"
        by (rule 2(2) [OF \<open>match_token (c # cs) = Some tok\<close>])
      moreover have "subseq (map snd (finditer j (canonical_spec mp ?rest)))
                       (map snd (finditer j (v @ canonical_spec mp ?rest)))"
        by (rule finditer_append_tokens)
      ultimately have "subseq (?U (finditer (i + length tok) ?rest))
                       (map snd (finditer j (v @ canonical_spec mp ?rest)))"
        by (rule subseq_order.trans)
      then show ?thesis unfolding fi cs using Some by simp
    qed
  qed
qed

lemma restore_by_canonical_spec:
  "restore_by_canonical s mp = (canonical_spec mp s, length (known_tokens mp s))"
  using canonical_fold [of 0 "[]" mp s 0]
  by (simp add: restore_by_canonical_def known_tokens_def)

lemma unknown_tokens_remain:
  "subseq (map snd (unknown_tokens mp s)) (map snd (finditer 0 (canonical_spec mp s)))"
  unfolding unknown_tokens_def by (rule canonical_spec_tokens)


text \<open>
  Claim C8 (unknown ids). A token whose id is not a key of \<open>mappings\<close> is skipped by
  the loop of Step C: text and counter are unchanged. Over the whole run,
  \<open>restore_by_canonical\<close> returns the text in which exactly the tokens with a known
  id are replaced (\<open>canonical_spec\<close>), and \<open>fallback_count\<close> is the number of tokens
  with a known id, so that a token with an unknown id is not counted there. The
  tokens with an unknown id are still found, in their order, among the tokens of
  the returned text. In \<open>run_deanonymize\<close>, for the text \<open>text_b\<close> that Steps A and B
  hand to Step C, \<open>fallback_count\<close> is the number of tokens of \<open>text_b\<close> with a known
  id, and every token of \<open>text_b\<close> with an unknown id is among the tokens counted
  by \<open>remaining_placeholders\<close>.
\<close>

theorem unknown_id_untouched:
  "(dict_get mappings tok = None \<longrightarrow>
      canonical_step mappings (text, n) (pos, tok) = (text, n)) \<and>
   restore_by_canonical text mappings =
     (canonical_spec mappings text, length (known_tokens mappings text)) \<and>
   subseq (map snd (unknown_tokens mappings text))
     (map snd (finditer 0 (fst (restore_by_canonical text mappings)))) \<and>
   (restore_by_position text0 (m_replacement_log m) = (text_a, pm, pu) \<and>
    restore_by_context total_score text_a (m_replacement_log m) = (text_b, cm) \<longrightarrow>
      run_deanonymize total_score text0 m =
        (canonical_spec (m_mappings m) text_b,
         \<lparr>position_matched = pm, context_matched = cm,
          fallback_count = length (known_tokens (m_mappings m) text_b),
          remaining_placeholders = length (finditer 0 (canonical_spec (m_mappings m) text_b)),
          total_in_log = length (m_replacement_log m)\<rparr>) \<and>
      subseq (map snd (unknown_tokens (m_mappings m) text_b))
        (map snd (finditer 0 (fst (run_deanonymize total_score text0 m)))) \<and>
      length (unknown_tokens (m_mappings m) text_b) \<le>
        remaining_placeholders (snd (run_deanonymize total_score text0 m)))"
proof (intro conjI impI)
  assume "dict_get mappings tok = None"
  then show "canonical_step mappings (text, n) (pos, tok) = (text, n)"
    by (simp add: canonical_step_def)
next
  show "restore_by_canonical text mappings =
     (canonical_spec mappings text, length (known_tokens mappings text))"
    by (rule restore_by_canonical_spec)
next
  show "subseq (map snd (unknown_tokens mappings text))
     (map snd (finditer 0 (fst (restore_by_canonical text mappings))))"
    by (simp add: restore_by_canonical_spec unknown_tokens_remain)
next
  assume h: "restore_by_position text0 (m_replacement_log m) = (text_a, pm, pu) \<and>
    restore_by_context total_score text_a (m_replacement_log m) = (text_b, cm)"
  show run: "run_deanonymize total_score text0 m =
        (canonical_spec (m_mappings m) text_b,
         \<lparr>position_matched = pm, context_matched = cm,
          fallback_count = length (known_tokens (m_mappings m) text_b),
          remaining_placeholders = length (finditer 0 (canonical_spec (m_mappings m) text_b)),
          total_in_log = length (m_replacement_log m)\<rparr>)"
    using h by (simp add: run_deanonymize_def Let_def restore_by_canonical_spec)
  show sub: "subseq (map snd (unknown_tokens (m_mappings m) text_b))
        (map snd (finditer 0 (fst (run_deanonymize total_score text0 m))))"
    by (simp add: run unknown_tokens_remain)
  have "length (map snd (unknown_tokens (m_mappings m) text_b)) \<le>
        length (map snd (finditer 0 (canonical_spec (m_mappings m) text_b)))"
    using unknown_tokens_remain by (rule list_emb_length)
  then show "length (unknown_tokens (m_mappings m) text_b) \<le>
        remaining_placeholders (snd (run_deanonymize total_score text0 m))"
    by (simp add: run)
qed

theorem unknown_id_untouched_witness:
  "dict_get [(''{A_1}'', \<lparr>p_value = Some ''Ann'', p_type = ''a'', p_aliases = []\<rparr>)] ''{X_9}'' = None \<and>
   canonical_step [(''{A_1}'', \<lparr>p_value = Some ''Ann'', p_type = ''a'', p_aliases = []\<rparr>)]
     (''{A_1} and {X_9}'', 0) (10, ''{X_9}'') = (''{A_1} and {X_9}'', 0) \<and>
   restore_by_position ''{A_1} and {X_9}'' [] = (''{A_1} and {X_9}'', 0, 0) \<and>
   restore_by_context (\<lambda>cb sb ca sa. 1) ''{A_1} and {X_9}'' [] = (''{A_1} and {X_9}'', 0) \<and>
   run_deanonymize (\<lambda>cb sb ca sa. 1) ''{A_1} and {X_9}''
     \<lparr>m_metadata = \<lparr>source_file = [], entity_count = 1\<rparr>,
      m_mappings = [(''{A_1}'', \<lparr>p_value = Some ''Ann'', p_type = ''a'', p_aliases = []\<rparr>)],
      m_replacement_log = []\<rparr> =
     (''Ann and {X_9}'',
      \<lparr>position_matched = 0, context_matched = 0, fallback_count = 1,
       remaining_placeholders = 1, total_in_log = 0\<rparr>)"
proof -
  let ?mp = "[(''{A_1}'', \<lparr>p_value = Some ''Ann'', p_type = ''a'', p_aliases = []\<rparr>)]"
  let ?t = "''{A_1} and {X_9}''"
  let ?m = "\<lparr>m_metadata = \<lparr>source_file = [], entity_count = 1\<rparr>,
      m_mappings = ?mp, m_replacement_log = []\<rparr>"
  have a: "dict_get ?mp ''{X_9}'' = None" by code_simp
  have b: "restore_by_position ?t (m_replacement_log ?m) = (?t, 0, 0)"
    by (simp add: restore_by_position_def position_order_def)
  have fi: "finditer 0 ?t = [(0, ''{A_1}''), (10, ''{X_9}'')]" by code_simp
  have c: "restore_by_context (\<lambda>cb sb ca sa. 1) ?t (m_replacement_log ?m) = (?t, 0)"
    unfolding restore_by_context_def Let_def fi
    by (simp add: context_step_def best_match_def)
  have k: "length (known_tokens ?mp ?t) = 1" unfolding known_tokens_def fi by code_simp
  have s: "canonical_spec ?mp ?t = ''Ann and {X_9}''" by code_simp
  have r: "length (finditer 0 ''Ann and {X_9}'') = 1" by code_simp
  have "canonical_step ?mp (?t, 0) (10, ''{X_9}'') = (?t, 0) \<and>
        run_deanonymize (\<lambda>cb sb ca sa. 1) ?t ?m =
        (canonical_spec (m_mappings ?m) ?t,
         \<lparr>position_matched = 0, context_matched = 0,
          fallback_count = length (known_tokens (m_mappings ?m) ?t),
          remaining_placeholders = length (finditer 0 (canonical_spec (m_mappings ?m) ?t)),
          total_in_log = length (m_replacement_log ?m)\<rparr>)"
    using unknown_id_untouched [of ?mp "''{X_9}''" ?t 0 10 ?t ?m ?t 0 0 "\<lambda>cb sb ca sa. 1" ?t 0] a b c
    by blast
  then show ?thesis using a b c k s r by simp
qed

end
